theory Spec2Isabelle
  imports Main "HOL-Library.Char_ord" "HOL-Library.List_Lexorder" "HOL-Library.Multiset"
begin

section \<open>Data model of \<open>src/app/page.tsx\<close>\<close>

text \<open>
  Strings are \<open>string\<close>: lists of characters, a character being a code unit below 256
  (the Latin-1 range, which holds the ASCII names of the catalog). They are compared code
  unit by code unit and lexicographically, as JavaScript compares strings.

  A parsed JSON value. The members of an object are kept as the list of \<open>(key, value)\<close>
  pairs in the order of the response text; a key written twice keeps its later value, and
  is listed once among the keys. The payload of a number is never inspected by the page.
\<close>

datatype json =
    JNull
  | JBool bool
  | JNum int
  | JStr string
  | JArr "json list"
  | JObj "(string \<times> json) list"

text \<open>
  The element type of the \<open>images\<close> state: \<open>{ url, breed }\<close>. The page copies each
  element of the response's array into \<open>url\<close> unchecked, so \<open>url\<close> holds a JSON value.
\<close>

record image_entry =
  url :: json
  breed :: string

text \<open>
  The seven \<open>useState\<close> cells of \<open>Home\<close>, and the requests that have been issued and have
  not settled yet: \<open>breedsRequest\<close> is the call of \<open>fetchBreeds\<close> made on mount, and
  \<open>imageRequests\<close> holds, oldest first, the value of \<open>selectedBreeds\<close> that each unsettled
  call of \<open>fetchImages\<close> closed over.
\<close>

record home =
  breeds :: "string list"
  selectedBreeds :: "string list"
  searchTerm :: string
  images :: "image_entry list"
  theme :: string
  showBreedNames :: bool
  error :: "string option"
  breedsRequest :: bool
  imageRequests :: "string list list"

text \<open>
  What one \<open>fetch(...)\<close> followed by \<open>.json()\<close> settles to: \<open>fetch\<close> rejects (network
  failure), or it resolves with a response of some HTTP status whose body either is not JSON
  (\<open>json()\<close> rejects) or parses to a value.
\<close>

datatype fetch_outcome =
    Rejected
  | Response nat "json option"

section \<open>JavaScript helpers\<close>

text \<open>
  \<open>String.prototype.toLowerCase\<close>. Below 256 the code units with a lower-case mapping
  are the capitals \<open>A\<close> to \<open>Z\<close> (65 to 90) and the accented capitals 192 to 214 and 216
  to 222; each maps to the code unit 32 above it, and every other code unit to itself.
\<close>

definition is_capital :: "nat \<Rightarrow> bool" where
  "is_capital n \<longleftrightarrow>
     (65 \<le> n \<and> n \<le> 90) \<or> (192 \<le> n \<and> n \<le> 214) \<or> (216 \<le> n \<and> n \<le> 222)"

definition lower_char :: "char \<Rightarrow> char" where
  "lower_char c = (if is_capital (of_char c) then char_of (of_char c + (32::nat)) else c)"

definition toLowerCase :: "string \<Rightarrow> string" where
  "toLowerCase s = map lower_char s"

text \<open>\<open>String.prototype.includes\<close>: does \<open>needle\<close> occur in \<open>hay\<close> as a contiguous run?\<close>

fun starts_with :: "string \<Rightarrow> string \<Rightarrow> bool" where
  "starts_with hay [] = True"
| "starts_with [] (c # cs) = False"
| "starts_with (h # hs) (c # cs) = (h = c \<and> starts_with hs cs)"

fun includes_str :: "string \<Rightarrow> string \<Rightarrow> bool" where
  "includes_str [] needle = (needle = [])"
| "includes_str (h # hs) needle = (starts_with (h # hs) needle \<or> includes_str hs needle)"

text \<open>Reading a property of a parsed value: only objects have members.\<close>

fun get_prop :: "string \<Rightarrow> json \<Rightarrow> json option" where
  "get_prop k (JObj ms) = map_of (rev ms) k"
| "get_prop k v = None"

text \<open>
  The decimal text of an index, and the indices \<open>"0"\<close>, \<open>"1"\<close>, ... of an array or string.
\<close>

fun digits :: "nat \<Rightarrow> nat \<Rightarrow> string" where
  "digits 0 n = []"
| "digits (Suc fuel) n =
     (if n < 10 then [char_of (48 + n)]
      else digits fuel (n div 10) @ [char_of (48 + n mod 10)])"

definition index_key :: "nat \<Rightarrow> string" where
  "index_key n = digits (Suc n) n"

definition index_keys :: "nat \<Rightarrow> string list" where
  "index_keys n = map index_key [0..<n]"

text \<open>
  \<open>Object.keys(v)\<close>: a \<open>TypeError\<close> (\<open>None\<close>) for \<open>undefined\<close> and \<open>null\<close>; the indices of
  an array or of a string; nothing for a number or a boolean; the keys of an object, each
  once. The page sorts the result at once, so the order in which an object lists its keys
  does not reach the state.
\<close>

fun Object_keys :: "json option \<Rightarrow> string list option" where
  "Object_keys None = None"
| "Object_keys (Some JNull) = None"
| "Object_keys (Some (JBool b)) = Some []"
| "Object_keys (Some (JNum n)) = Some []"
| "Object_keys (Some (JStr s)) = Some (index_keys (length s))"
| "Object_keys (Some (JArr vs)) = Some (index_keys (length vs))"
| "Object_keys (Some (JObj ms)) = Some (remdups (map fst ms))"

section \<open>The selection\<close>

text \<open>
  The updater of \<open>handleBreedSelection\<close>:
  \<^verbatim>\<open>prev.includes(breed) ? prev.filter((b) => b !== breed) : [...prev, breed]\<close>
\<close>

definition toggle :: "string \<Rightarrow> string list \<Rightarrow> string list" where
  "toggle b prev = (if b \<in> set prev then filter (\<lambda>x. x \<noteq> b) prev else prev @ [b])"

text \<open>
  \<open>handleBreedSelection\<close>, \<open>handleSearch\<close> and \<open>loadRandomBreeds\<close> as state updates.

  \<open>loadRandomBreeds\<close> sorts a copy of \<open>breeds\<close> with the comparator
  \<^verbatim>\<open>() => 0.5 - Math.random()\<close>. The order that comes out depends on the random numbers
  and on the engine's sorting algorithm; the model takes the sorted copy as the argument
  \<open>shuffled\<close>, a rearrangement of \<open>breeds\<close>, and keeps the \<open>slice(0, 3)\<close>.
\<close>

definition handleBreedSelection :: "string \<Rightarrow> home \<Rightarrow> home" where
  "handleBreedSelection b s = s\<lparr>selectedBreeds := toggle b (selectedBreeds s)\<rparr>"

definition handleSearch :: "string \<Rightarrow> home \<Rightarrow> home" where
  "handleSearch v s = s\<lparr>searchTerm := toLowerCase v\<rparr>"

definition loadRandomBreeds :: "string list \<Rightarrow> home \<Rightarrow> home" where
  "loadRandomBreeds shuffled s = s\<lparr>selectedBreeds := take 3 shuffled\<rparr>"

text \<open>
  The list that \<open>BreedSelector\<close> renders a checkbox for:
  \<^verbatim>\<open>breeds.filter((breed) => breed.toLowerCase().includes(searchTerm))\<close>
\<close>

definition filteredBreeds :: "string list \<Rightarrow> string \<Rightarrow> string list" where
  "filteredBreeds bs term = filter (\<lambda>b. includes_str (toLowerCase b) term) bs"

section \<open>The two fetches\<close>

text \<open>
  \<open>fetchBreeds\<close> from the point where its request settles. Reading \<open>data.message\<close> of
  \<open>null\<close> throws, and of any other value that is not an object with that member gives
  \<open>undefined\<close>, on which \<open>Object.keys\<close> throws: all of these end in the \<open>catch\<close>, like a
  rejected \<open>fetch\<close> or \<open>json()\<close>. The status of the response is not read.
\<close>

fun fetchBreeds_keys :: "fetch_outcome \<Rightarrow> string list option" where
  "fetchBreeds_keys Rejected = None"
| "fetchBreeds_keys (Response status None) = None"
| "fetchBreeds_keys (Response status (Some data)) =
     map_option sort (Object_keys (get_prop ''message'' data))"

definition fetchBreeds :: "fetch_outcome \<Rightarrow> home \<Rightarrow> home" where
  "fetchBreeds out s =
     (case fetchBreeds_keys out of
        Some ks \<Rightarrow> s\<lparr>breeds := ks, breedsRequest := False\<rparr>
      | None \<Rightarrow> s\<lparr>error := Some ''Error fetching breeds'', breedsRequest := False\<rparr>)"

text \<open>
  \<open>fetchImages\<close> from the point where its requests have settled; \<open>sel\<close> is the value of
  \<open>selectedBreeds\<close> the call closed over and \<open>outs\<close> holds one outcome per breed of \<open>sel\<close>.
  \<open>Promise.all\<close> rejects when one of the promises does. \<open>result.message.map\<close> throws
  unless \<open>message\<close> is an array. Either way the \<open>catch\<close> runs and \<open>setImages\<close> does not.
  \<open>imageResults\<close> has one result per breed of \<open>sel\<close>, in the order of \<open>sel\<close>, so that
  \<open>selectedBreeds[index]\<close> is the breed at the same position as the result.
\<close>

fun json_of :: "fetch_outcome \<Rightarrow> json option" where
  "json_of Rejected = None"
| "json_of (Response status body) = body"

definition Promise_all :: "'a option list \<Rightarrow> 'a list option" where
  "Promise_all ps = those ps"

definition message_map :: "string \<Rightarrow> json \<Rightarrow> image_entry list option" where
  "message_map b result =
     (case get_prop ''message'' result of
        Some (JArr us) \<Rightarrow> Some (map (\<lambda>u. \<lparr>url = u, breed = b\<rparr>) us)
      | _ \<Rightarrow> None)"

definition flatMap_images :: "string list \<Rightarrow> json list \<Rightarrow> image_entry list option" where
  "flatMap_images sel imageResults =
     map_option concat (those (map (\<lambda>(b, r). message_map b r) (zip sel imageResults)))"

definition allImages :: "string list \<Rightarrow> fetch_outcome list \<Rightarrow> image_entry list option" where
  "allImages sel outs =
     (case Promise_all (map json_of outs) of
        None \<Rightarrow> None
      | Some imageResults \<Rightarrow> flatMap_images sel imageResults)"

definition fetchImages :: "string list \<Rightarrow> fetch_outcome list \<Rightarrow> home \<Rightarrow> home" where
  "fetchImages sel outs s =
     (case allImages sel outs of
        Some imgs \<Rightarrow> s\<lparr>images := imgs\<rparr>
      | None \<Rightarrow> s\<lparr>error := Some ''Error fetching images''\<rparr>)"

text \<open>
  The effect on \<open>[selectedBreeds]\<close>. It runs after every render in which \<open>selectedBreeds\<close> is
  a new array, which is after every \<open>handleBreedSelection\<close> and every \<open>loadRandomBreeds\<close>:
  both always build a new array. Calling \<open>fetchImages\<close> issues the requests and returns.
\<close>

definition selectedBreeds_effect :: "home \<Rightarrow> home" where
  "selectedBreeds_effect s =
     (if length (selectedBreeds s) > 0
      then s\<lparr>imageRequests := imageRequests s @ [selectedBreeds s]\<rparr>
      else s\<lparr>images := []\<rparr>)"

section \<open>The page as a transition system\<close>

text \<open>
  The state after the first render and its effects: the initial values of the \<open>useState\<close>
  cells, \<open>fetchBreeds\<close> issued, and the selection effect run on the empty selection.
\<close>

definition mounted :: home where
  "mounted = \<lparr>breeds = [], selectedBreeds = [], searchTerm = [], images = [],
     theme = ''light'', showBreedNames = True, error = None,
     breedsRequest = True, imageRequests = []\<rparr>"

text \<open>
  What can happen next: a request settles, or the user acts on a widget that is on the
  page. A checkbox exists only for a breed of \<open>filteredBreeds\<close>; the radio group offers three
  themes. \<open>step\<close> is \<open>None\<close> for an event that cannot happen in the state.
\<close>

datatype event =
    BreedsSettled fetch_outcome
  | ImagesSettled nat "fetch_outcome list"
  | CheckboxToggled string
  | SearchTyped string
  | RandomClicked "string list"
  | ThemeChosen string
  | ShowNamesSwitched bool

definition drop_nth :: "nat \<Rightarrow> 'a list \<Rightarrow> 'a list" where
  "drop_nth i xs = take i xs @ drop (Suc i) xs"

fun step :: "event \<Rightarrow> home \<Rightarrow> home option" where
  "step (BreedsSettled out) s =
     (if breedsRequest s then Some (fetchBreeds out s) else None)"
| "step (ImagesSettled i outs) s =
     (if i < length (imageRequests s) \<and> length outs = length (imageRequests s ! i)
      then Some (fetchImages (imageRequests s ! i) outs
                   (s\<lparr>imageRequests := drop_nth i (imageRequests s)\<rparr>))
      else None)"
| "step (CheckboxToggled b) s =
     (if b \<in> set (filteredBreeds (breeds s) (searchTerm s))
      then Some (selectedBreeds_effect (handleBreedSelection b s))
      else None)"
| "step (SearchTyped v) s = Some (handleSearch v s)"
| "step (RandomClicked shuffled) s =
     (if mset shuffled = mset (breeds s)
      then Some (selectedBreeds_effect (loadRandomBreeds shuffled s))
      else None)"
| "step (ThemeChosen t) s =
     (if t \<in> {''light'', ''dark'', ''dog-theme''} then Some (s\<lparr>theme := t\<rparr>) else None)"
| "step (ShowNamesSwitched v) s = Some (s\<lparr>showBreedNames := v\<rparr>)"

fun run :: "event list \<Rightarrow> home \<Rightarrow> home option" where
  "run [] s = Some s"
| "run (e # es) s = (case step e s of None \<Rightarrow> None | Some s' \<Rightarrow> run es s')"

section \<open>Notions used to state the properties\<close>

text \<open>
  The gallery the specification describes for a selection \<open>sel\<close> and one array of URLs per
  breed: the concatenation, in the order of \<open>sel\<close>, of each breed's URLs paired with the
  breed's name.
\<close>

definition spec_gallery :: "string list \<Rightarrow> json list list \<Rightarrow> image_entry list" where
  "spec_gallery sel urlss =
     concat (map (\<lambda>(b, us). map (\<lambda>u. \<lparr>url = u, breed = b\<rparr>) us) (zip sel urlss))"

text \<open>
  The array of URLs that \<open>fetchImages\<close> reads from the outcome of one per-breed request,
  if it can. It cannot (\<open>None\<close>) when the promise rejected or when the parsed body has no
  array under \<open>message\<close>: these outcomes, and only these, take \<open>fetchImages\<close> to its
  \<open>catch\<close>. The status of the response plays no part.
\<close>

definition image_urls :: "fetch_outcome \<Rightarrow> json list option" where
  "image_urls out =
     (case json_of out of
        None \<Rightarrow> None
      | Some r \<Rightarrow> (case get_prop ''message'' r of Some (JArr us) \<Rightarrow> Some us | _ \<Rightarrow> None))"

definition reaches_catch :: "fetch_outcome \<Rightarrow> bool" where
  "reaches_catch out \<longleftrightarrow> image_urls out = None"

text \<open>
  A failed fetch in the words of the specification: a network failure, a status that is
  not 2xx, or a body that is not JSON.
\<close>

fun spec_fetch_error :: "fetch_outcome \<Rightarrow> bool" where
  "spec_fetch_error Rejected = True"
| "spec_fetch_error (Response status body) =
     (\<not> (200 \<le> status \<and> status < 300) \<or> body = None)"

text \<open>
  Equality up to the case of letters, in the same range of code units: the small letters
  are 97 to 122, 224 to 246 and 248 to 254, and the capital of a small letter is the code
  unit 32 below it. Two strings are equal up to case when they have the same length and,
  position by position, the same character or a small letter and its capital.
\<close>

definition is_small :: "nat \<Rightarrow> bool" where
  "is_small n \<longleftrightarrow>
     (97 \<le> n \<and> n \<le> 122) \<or> (224 \<le> n \<and> n \<le> 246) \<or> (248 \<le> n \<and> n \<le> 254)"

definition capital_of :: "char \<Rightarrow> char" where
  "capital_of c = (if is_small (of_char c) then char_of (of_char c - (32::nat)) else c)"

definition same_letter :: "char \<Rightarrow> char \<Rightarrow> bool" where
  "same_letter c d \<longleftrightarrow> c = d \<or> c = capital_of d \<or> d = capital_of c"

definition ignoring_case :: "string \<Rightarrow> string \<Rightarrow> bool" where
  "ignoring_case x y \<longleftrightarrow> list_all2 same_letter x y"

text \<open>The two events that replace \<open>selectedBreeds\<close>.\<close>

fun mutates_selection :: "event \<Rightarrow> bool" where
  "mutates_selection (CheckboxToggled b) = True"
| "mutates_selection (RandomClicked shuffled) = True"
| "mutates_selection e = False"

text \<open>
  An image endpoint that answers every request for breed \<open>b\<close> with the URLs \<open>f b\<close>, and the
  events that settle every request in flight against it, oldest first.
\<close>

definition served :: "(string \<Rightarrow> json list) \<Rightarrow> string \<Rightarrow> fetch_outcome" where
  "served f b =
     Response 200 (Some (JObj [(''message'', JArr (f b)), (''status'', JStr ''success'')]))"

definition settle_events :: "(string \<Rightarrow> json list) \<Rightarrow> home \<Rightarrow> event list" where
  "settle_events f s = map (\<lambda>sel. ImagesSettled 0 (map (served f) sel)) (imageRequests s)"

definition toggle_and_settle :: "(string \<Rightarrow> json list) \<Rightarrow> string \<Rightarrow> home \<Rightarrow> home option" where
  "toggle_and_settle f b s =
     (case step (CheckboxToggled b) s of
        None \<Rightarrow> None
      | Some s1 \<Rightarrow> run (settle_events f s1) s1)"



section \<open>Invariants\<close>

text \<open>Neither the catalog nor the selection holds a name twice.\<close>

definition sel_inv :: "home \<Rightarrow> bool" where
  "sel_inv s \<longleftrightarrow> distinct (breeds s) \<and> distinct (selectedBreeds s)"

text \<open>Reading a decimal index back, to tell two indices apart.\<close>

definition digit_val :: "char \<Rightarrow> nat" where
  "digit_val c = of_char c - 48"

definition undigits :: "string \<Rightarrow> nat" where
  "undigits cs = foldl (\<lambda>a c. 10 * a + digit_val c) 0 cs"


text \<open>The state the page is left in by a catalog fetch that has failed.\<close>

definition catalog_failed :: "home \<Rightarrow> bool" where
  "catalog_failed s \<longleftrightarrow>
     breeds s = [] \<and> selectedBreeds s = [] \<and> images s = [] \<and> imageRequests s = [] \<and>
     \<not> breedsRequest s \<and> error s = Some ''Error fetching breeds''"

section \<open>Sample data\<close>

text \<open>
  Catalog responses: one with two breeds, one whose \<open>message\<close> object has no keys, and an
  error page of the server, a JSON body whose \<open>message\<close> is a text. Three URLs per breed.
\<close>

definition two_breeds :: fetch_outcome where
  "two_breeds =
     Response 200 (Some (JObj [(''message'', JObj [(''beagle'', JArr []), (''akita'', JArr [])]),
                               (''status'', JStr ''success'')]))"

definition no_breeds :: fetch_outcome where
  "no_breeds =
     Response 200 (Some (JObj [(''message'', JObj []), (''status'', JStr ''success'')]))"

definition http_error :: fetch_outcome where
  "http_error =
     Response 500 (Some (JObj [(''status'', JStr ''error''), (''message'', JStr ''down''),
                               (''code'', JNum 500)]))"

definition three_urls :: "string \<Rightarrow> json list" where
  "three_urls b = [JStr (b @ ''/1.jpg''), JStr (b @ ''/2.jpg''), JStr (b @ ''/3.jpg'')]"

text \<open>
  The endpoint is random: three other URLs for a breed. And a response of status 500
  whose body nevertheless carries three URLs.
\<close>

definition other_urls :: "string \<Rightarrow> json list" where
  "other_urls b = [JStr (b @ ''/4.jpg''), JStr (b @ ''/5.jpg''), JStr (b @ ''/6.jpg'')]"

definition beagle_500 :: fetch_outcome where
  "beagle_500 =
     Response 500 (Some (JObj [(''message'', JArr (three_urls ''beagle'')),
                               (''status'', JStr ''success'')]))"

text \<open>
  States of the page: the catalog of \<open>two_breeds\<close> loaded; then \<open>akita\<close> ticked, its
  recompute in flight; then the gallery of \<open>akita\<close> on display; then \<open>beagle\<close> ticked too,
  its recompute in flight; then both galleries on display.
\<close>

definition catalog_loaded :: home where
  "catalog_loaded = mounted\<lparr>breeds := [''akita'', ''beagle''], breedsRequest := False\<rparr>"

definition akita_ticked :: home where
  "akita_ticked = catalog_loaded\<lparr>selectedBreeds := [''akita''], imageRequests := [[''akita'']]\<rparr>"

definition akita_shown :: home where
  "akita_shown = catalog_loaded\<lparr>selectedBreeds := [''akita''],
     images := spec_gallery [''akita''] [three_urls ''akita'']\<rparr>"

definition beagle_ticked :: home where
  "beagle_ticked = catalog_loaded\<lparr>selectedBreeds := [''akita'', ''beagle''],
     images := spec_gallery [''akita''] [three_urls ''akita''],
     imageRequests := [[''akita'', ''beagle'']]\<rparr>"

definition both_shown :: home where
  "both_shown = catalog_loaded\<lparr>selectedBreeds := [''akita'', ''beagle''],
     images := spec_gallery [''akita'', ''beagle''] [three_urls ''akita'', three_urls ''beagle'']\<rparr>"

text \<open>Both breeds ticked in quick succession: the two recomputes are in flight.\<close>

definition both_in_flight :: home where
  "both_in_flight = catalog_loaded\<lparr>selectedBreeds := [''akita'', ''beagle''],
     imageRequests := [[''akita''], [''akita'', ''beagle'']]\<rparr>"

text \<open>The catalog fetch has failed and the user has typed \<open>A\<close> into the search box.\<close>

definition catalog_down :: home where
  "catalog_down = mounted\<lparr>searchTerm := ''a'', error := Some ''Error fetching breeds'',
     breedsRequest := False\<rparr>"


section \<open>Facts about the helpers\<close>

lemma starts_with_iff: "starts_with hay needle \<longleftrightarrow> (\<exists>q. hay = needle @ q)"
  by (induction hay needle rule: starts_with.induct) auto

lemma includes_str_iff: "includes_str hay needle \<longleftrightarrow> (\<exists>p q. hay = p @ needle @ q)"
proof (induction hay)
  case Nil
  then show ?case by auto
next
  case (Cons h hs)
  show ?case
  proof
    assume "includes_str (h # hs) needle"
    then consider "starts_with (h # hs) needle" | "includes_str hs needle" by auto
    then show "\<exists>p q. h # hs = p @ needle @ q"
    proof cases
      case 1
      then obtain q where "h # hs = needle @ q" by (auto simp: starts_with_iff)
      then have "h # hs = [] @ needle @ q" by simp
      then show ?thesis by blast
    next
      case 2
      then obtain p q where "hs = p @ needle @ q" using Cons.IH by auto
      then have "h # hs = (h # p) @ needle @ q" by simp
      then show ?thesis by blast
    qed
  next
    assume "\<exists>p q. h # hs = p @ needle @ q"
    then obtain p q where pq: "h # hs = p @ needle @ q" by blast
    show "includes_str (h # hs) needle"
    proof (cases p)
      case Nil
      with pq have "starts_with (h # hs) needle" by (auto simp: starts_with_iff)
      then show ?thesis by simp
    next
      case (Cons a p')
      with pq have "hs = p' @ needle @ q" by simp
      then have "includes_str hs needle" using Cons.IH by blast
      then show ?thesis by simp
    qed
  qed
qed

lemma toggle_distinct: "distinct sel \<Longrightarrow> distinct (toggle b sel)"
  by (simp add: toggle_def)

lemma digit_val_char_of: "d < 10 \<Longrightarrow> digit_val (char_of (48 + d)) = d"
  by (simp add: digit_val_def)

lemma undigits_digits: "n < fuel \<Longrightarrow> undigits (digits fuel n) = n"
proof (induction fuel n rule: digits.induct)
  case (1 n)
  then show ?case by simp
next
  case (2 fuel n)
  show ?case
  proof (cases "n < 10")
    case True
    then show ?thesis by (simp add: undigits_def digit_val_char_of)
  next
    case False
    with "2.prems" have "n div 10 < fuel" by auto
    with False "2.IH" have ih: "undigits (digits fuel (n div 10)) = n div 10" by simp
    have "undigits (digits (Suc fuel) n) =
        10 * undigits (digits fuel (n div 10)) + digit_val (char_of (48 + n mod 10))"
      using False by (simp add: undigits_def)
    also have "\<dots> = 10 * (n div 10) + n mod 10"
      by (simp add: ih digit_val_char_of)
    finally show ?thesis by simp
  qed
qed

lemma index_key_inj: "inj index_key"
proof (rule injI)
  fix m n assume "index_key m = index_key n"
  then have "undigits (index_key m) = undigits (index_key n)" by simp
  then show "m = n" by (simp add: index_key_def undigits_digits del: digits.simps)
qed

lemma index_keys_distinct: "distinct (index_keys n)"
  by (simp add: index_keys_def distinct_map inj_on_subset[OF index_key_inj])

lemma Object_keys_distinct: "Object_keys v = Some ks \<Longrightarrow> distinct ks"
  by (induction v rule: Object_keys.induct) (auto simp: index_keys_distinct)

lemma fetchBreeds_keys_sorted: "fetchBreeds_keys out = Some ks \<Longrightarrow> sorted ks \<and> distinct ks"
  by (induction out rule: fetchBreeds_keys.induct) (auto dest: Object_keys_distinct)

subsection \<open>The selection and the catalog never hold a name twice\<close>

lemma effect_sel:
  "selectedBreeds (selectedBreeds_effect s) = selectedBreeds s"
  "breeds (selectedBreeds_effect s) = breeds s"
  by (simp_all add: selectedBreeds_effect_def)

lemma fetchImages_sel:
  "selectedBreeds (fetchImages sel outs s) = selectedBreeds s"
  "breeds (fetchImages sel outs s) = breeds s"
  by (simp_all add: fetchImages_def split: option.splits)

lemma take_perm_distinct: "mset p = mset bs \<Longrightarrow> distinct bs \<Longrightarrow> distinct (take n p)"
  using distinct_take mset_eq_imp_distinct_iff by blast

lemma step_sel_inv: "step e s = Some s' \<Longrightarrow> sel_inv s \<Longrightarrow> sel_inv s'"
proof (cases e)
  case (BreedsSettled out)
  assume "step e s = Some s'" "sel_inv s"
  with BreedsSettled show ?thesis
    by (auto simp: sel_inv_def fetchBreeds_def split: if_splits option.splits
        dest: fetchBreeds_keys_sorted)
next
  case (ImagesSettled i outs)
  assume "step e s = Some s'" "sel_inv s"
  with ImagesSettled show ?thesis
    by (auto simp: sel_inv_def fetchImages_sel split: if_splits)
next
  case (CheckboxToggled b)
  assume "step e s = Some s'" "sel_inv s"
  with CheckboxToggled show ?thesis
    by (auto simp: sel_inv_def effect_sel handleBreedSelection_def toggle_distinct
        split: if_splits)
next
  case (SearchTyped v)
  assume "step e s = Some s'" "sel_inv s"
  with SearchTyped show ?thesis by (auto simp: sel_inv_def handleSearch_def)
next
  case (RandomClicked p)
  assume "step e s = Some s'" "sel_inv s"
  with RandomClicked show ?thesis
    by (auto simp: sel_inv_def effect_sel loadRandomBreeds_def take_perm_distinct
        split: if_splits)
next
  case (ThemeChosen t)
  assume "step e s = Some s'" "sel_inv s"
  with ThemeChosen show ?thesis by (auto simp: sel_inv_def split: if_splits)
next
  case (ShowNamesSwitched v)
  assume "step e s = Some s'" "sel_inv s"
  with ShowNamesSwitched show ?thesis by (auto simp: sel_inv_def)
qed

lemma run_sel_inv: "run es s = Some s' \<Longrightarrow> sel_inv s \<Longrightarrow> sel_inv s'"
proof (induction es arbitrary: s)
  case Nil
  then show ?case by simp
next
  case (Cons e es)
  then show ?case by (auto split: option.splits dest: step_sel_inv)
qed

lemma mounted_sel_inv: "sel_inv mounted"
  by (simp add: sel_inv_def mounted_def)

subsection \<open>Lower case and equality up to case\<close>

lemma of_char_char_of_small: "n < 256 \<Longrightarrow> (of_char (char_of n) :: nat) = n"
  by simp

lemma of_char_lower:
  "(of_char (lower_char c) :: nat) = (if is_capital (of_char c) then of_char c + 32 else of_char c)"
proof (cases "is_capital (of_char c)")
  case True
  then have "(of_char c :: nat) + 32 < 256" by (simp add: is_capital_def) arith
  with True show ?thesis by (simp add: lower_char_def of_char_char_of_small del: of_char_of)
next
  case False
  then show ?thesis by (simp add: lower_char_def)
qed

lemma of_char_capital:
  "(of_char (capital_of c) :: nat) = (if is_small (of_char c) then of_char c - 32 else of_char c)"
proof (cases "is_small (of_char c)")
  case True
  then have "(of_char c :: nat) - 32 < 256" by (simp add: is_small_def) arith
  with True show ?thesis by (simp add: capital_of_def of_char_char_of_small del: of_char_of)
next
  case False
  then show ?thesis by (simp add: capital_of_def)
qed

lemma char_eq_iff_nat: "c = d \<longleftrightarrow> (of_char c :: nat) = of_char d"
  by auto

lemma capital_small: "is_capital m \<Longrightarrow> is_small (m + 32)"
  unfolding is_capital_def is_small_def by arith

lemma small_capital: "is_small n \<Longrightarrow> is_capital (n - 32) \<and> 32 \<le> n"
  unfolding is_capital_def is_small_def by arith

lemma small_not_capital: "is_small n \<Longrightarrow> \<not> is_capital n"
  unfolding is_capital_def is_small_def by arith

lemma case_arith:
  fixes m n :: nat
  shows "(if is_capital m then m + 32 else m) = (if is_capital n then n + 32 else n) \<longleftrightarrow>
     m = n \<or> m = (if is_small n then n - 32 else n) \<or> n = (if is_small m then m - 32 else m)"
    (is "?l \<longleftrightarrow> ?r")
proof
  assume l: ?l
  consider "is_capital m" "is_capital n" | "is_capital m" "\<not> is_capital n"
    | "\<not> is_capital m" "is_capital n" | "\<not> is_capital m" "\<not> is_capital n"
    by blast
  then show ?r
  proof cases
    case 1
    with l show ?thesis by simp
  next
    case 2
    with l have n: "n = m + 32" by simp
    with 2 have "is_small n" by (simp add: capital_small)
    with n show ?thesis by simp
  next
    case 3
    with l have m: "m = n + 32" by simp
    with 3 have "is_small m" by (simp add: capital_small)
    with m show ?thesis by simp
  next
    case 4
    with l show ?thesis by simp
  qed
next
  assume ?r
  then consider "m = n" | "m \<noteq> n" "m = (if is_small n then n - 32 else n)"
    | "m \<noteq> n" "n = (if is_small m then m - 32 else m)"
    by blast
  then show ?l
  proof cases
    case 1
    then show ?thesis by simp
  next
    case 2
    then have s: "is_small n" and m: "m = n - 32" by (auto split: if_splits)
    from s have "is_capital m" "32 \<le> n" "\<not> is_capital n"
      using small_capital [of n] small_not_capital [of n] m by auto
    with m show ?thesis by simp
  next
    case 3
    then have s: "is_small m" and n: "n = m - 32" by (auto split: if_splits)
    from s have "is_capital n" "32 \<le> m" "\<not> is_capital m"
      using small_capital [of m] small_not_capital [of m] n by auto
    with n show ?thesis by simp
  qed
qed

lemma lower_char_eq_iff: "lower_char c = lower_char d \<longleftrightarrow> same_letter c d"
proof -
  have "lower_char c = lower_char d \<longleftrightarrow>
      (of_char (lower_char c) :: nat) = of_char (lower_char d)"
    by (rule char_eq_iff_nat)
  also have "\<dots> \<longleftrightarrow> (of_char c :: nat) = of_char d \<or>
      (of_char c :: nat) = of_char (capital_of d) \<or> (of_char d :: nat) = of_char (capital_of c)"
    by (simp only: of_char_lower of_char_capital case_arith)
  also have "\<dots> \<longleftrightarrow> same_letter c d"
    unfolding same_letter_def by (simp only: char_eq_iff_nat [symmetric])
  finally show ?thesis .
qed

lemma toLowerCase_eq_iff: "toLowerCase x = toLowerCase y \<longleftrightarrow> ignoring_case x y"
  unfolding toLowerCase_def ignoring_case_def
proof (induction x arbitrary: y)
  case Nil
  then show ?case by auto
next
  case (Cons c x)
  then show ?case by (cases y) (auto simp: lower_char_eq_iff)
qed

lemma includes_ignoring_case:
  "includes_str (toLowerCase b) (toLowerCase v) \<longleftrightarrow>
     (\<exists>p m q. b = p @ m @ q \<and> ignoring_case m v)"
proof
  assume "includes_str (toLowerCase b) (toLowerCase v)"
  then obtain p q where "toLowerCase b = p @ toLowerCase v @ q"
    by (auto simp: includes_str_iff)
  then have "map lower_char b = p @ (map lower_char v @ q)" by (simp add: toLowerCase_def)
  then have "\<exists>p' r. b = p' @ r \<and> p = map lower_char p' \<and>
      map lower_char v @ q = map lower_char r"
    by (simp only: map_eq_append_conv)
  then obtain p' r where b: "b = p' @ r" and "map lower_char v @ q = map lower_char r"
    by blast
  then have "map lower_char r = map lower_char v @ q" by simp
  then have "\<exists>m q'. r = m @ q' \<and> map lower_char v = map lower_char m \<and> q = map lower_char q'"
    by (simp only: map_eq_append_conv)
  then obtain m q' where r': "r = m @ q'" and "map lower_char v = map lower_char m"
    by blast
  then have m: "map lower_char m = map lower_char v" by simp
  from m have "ignoring_case m v" by (simp add: toLowerCase_eq_iff [symmetric] toLowerCase_def)
  with b r' show "\<exists>p m q. b = p @ m @ q \<and> ignoring_case m v" by blast
next
  assume "\<exists>p m q. b = p @ m @ q \<and> ignoring_case m v"
  then obtain p m q where b: "b = p @ m @ q" and "ignoring_case m v" by blast
  then have "toLowerCase m = toLowerCase v" by (simp add: toLowerCase_eq_iff)
  with b have "toLowerCase b = toLowerCase p @ toLowerCase v @ toLowerCase q"
    by (simp add: toLowerCase_def)
  then show "includes_str (toLowerCase b) (toLowerCase v)"
    unfolding includes_str_iff by blast
qed

subsection \<open>What \<open>fetchImages\<close> computes\<close>

lemma those_map_Some: "those (map Some xs) = Some xs"
  by (induction xs) auto

lemma those_None_iff: "those xs = None \<longleftrightarrow> None \<in> set xs"
  by (induction xs) (auto split: option.splits)

lemma those_Some_iff: "those xs = Some ys \<longleftrightarrow> xs = map Some ys"
proof (induction xs arbitrary: ys)
  case Nil
  then show ?case by auto
next
  case (Cons x xs)
  then show ?case by (cases x) (auto simp: map_eq_Cons_conv)
qed

lemma allImages_eq:
  "length outs = length sel \<Longrightarrow>
   allImages sel outs = map_option (spec_gallery sel) (those (map image_urls outs))"
proof (induction outs sel rule: list_induct2)
  case Nil
  then show ?case
    by (simp add: allImages_def Promise_all_def flatMap_images_def spec_gallery_def)
next
  case (Cons out outs b sel)
  show ?case
  proof (cases "json_of out")
    case None
    then show ?thesis
      by (simp add: allImages_def Promise_all_def image_urls_def)
  next
    case (Some r)
    note r = this
    show ?thesis
    proof (cases "those (map json_of outs)")
      case None
      then have "allImages sel outs = None" by (simp add: allImages_def Promise_all_def)
      with Cons.IH have "those (map image_urls outs) = None" by simp
      with None r show ?thesis
        by (simp add: allImages_def Promise_all_def split: option.splits)
    next
      case (Some rs)
      with Cons.IH have ih:
        "flatMap_images sel rs = map_option (spec_gallery sel) (those (map image_urls outs))"
        by (simp add: allImages_def Promise_all_def)
      show ?thesis
      proof (cases "image_urls out")
        case None
        with r have "message_map b r = None"
          by (auto simp: image_urls_def message_map_def split: option.splits json.splits)
        with None r Some show ?thesis
          by (simp add: allImages_def Promise_all_def flatMap_images_def)
      next
        case (Some us)
        with r have mm: "message_map b r = Some (map (\<lambda>u. \<lparr>url = u, breed = b\<rparr>) us)"
          by (auto simp: image_urls_def message_map_def split: option.splits json.splits)
        have "allImages (b # sel) (out # outs) = flatMap_images (b # sel) (r # rs)"
          using r \<open>those (map json_of outs) = Some rs\<close>
          by (simp add: allImages_def Promise_all_def)
        also have "\<dots> =
            map_option ((@) (map (\<lambda>u. \<lparr>url = u, breed = b\<rparr>) us)) (flatMap_images sel rs)"
          using mm by (simp add: flatMap_images_def option.map_comp comp_def split: option.splits)
        also have "\<dots> =
            map_option (spec_gallery (b # sel)) (those (map image_urls (out # outs)))"
          using Some by (simp add: ih spec_gallery_def option.map_comp comp_def split: option.splits)
        finally show ?thesis .
      qed
    qed
  qed
qed

lemma allImages_success:
  "length urlss = length sel \<Longrightarrow> map image_urls outs = map Some urlss \<Longrightarrow>
   allImages sel outs = Some (spec_gallery sel urlss)"
proof -
  assume l: "length urlss = length sel" and m: "map image_urls outs = map Some urlss"
  from m have "length outs = length urlss" by (metis length_map)
  with l have "length outs = length sel" by simp
  then show ?thesis by (simp add: allImages_eq m those_map_Some)
qed

lemma allImages_failure:
  "length outs = length sel \<Longrightarrow> list_ex reaches_catch outs \<Longrightarrow> allImages sel outs = None"
proof -
  assume l: "length outs = length sel" and f: "list_ex reaches_catch outs"
  from f obtain out where "out \<in> set outs" "image_urls out = None"
    by (auto simp: list_ex_iff reaches_catch_def)
  then have "None \<in> set (map image_urls outs)" by force
  then have "those (map image_urls outs) = None" by (simp only: those_None_iff)
  with l show ?thesis by (simp add: allImages_eq)
qed

lemma spec_gallery_length:
  "length urlss = length sel \<Longrightarrow> \<forall>us\<in>set urlss. length us = n \<Longrightarrow>
   length (spec_gallery sel urlss) = n * length sel"
proof (induction urlss sel rule: list_induct2)
  case Nil
  then show ?case by (simp add: spec_gallery_def)
next
  case (Cons us urlss b sel)
  then show ?case by (simp add: spec_gallery_def)
qed


lemma reaches_catch_iff:
  "reaches_catch out \<longleftrightarrow>
     out = Rejected \<or> (\<exists>status. out = Response status None) \<or>
     (\<exists>status r. out = Response status (Some r) \<and> (\<forall>us. get_prop ''message'' r \<noteq> Some (JArr us)))"
proof (cases out)
  case Rejected
  then show ?thesis by (simp add: reaches_catch_def image_urls_def)
next
  case (Response status body)
  then show ?thesis
    by (cases body)
      (auto simp: reaches_catch_def image_urls_def split: option.splits json.splits)
qed

lemma image_urls_served: "image_urls (served f b) = Some (f b)"
  by (simp add: image_urls_def served_def)

lemma drop_nth_length: "i < length xs \<Longrightarrow> length (drop_nth i xs) = length xs - 1"
  by (simp add: drop_nth_def)

lemma drop_nth_before: "i < j \<Longrightarrow> j < length xs \<Longrightarrow> drop_nth j xs ! i = xs ! i"
  by (simp add: drop_nth_def nth_append)

lemma drop_nth_after: "i < j \<Longrightarrow> j < length xs \<Longrightarrow> drop_nth i xs ! (j - 1) = xs ! j"
proof -
  assume a: "i < j" "j < length xs"
  then have "\<not> j - 1 < i" by arith
  moreover from a have "Suc i + (j - 1 - i) = j" by arith
  ultimately show ?thesis using a by (simp add: drop_nth_def nth_append min_def)
qed

lemma settle_success:
  assumes "i < length (imageRequests s)"
    and "length urlss = length (imageRequests s ! i)"
    and "map image_urls outs = map Some urlss"
  shows "step (ImagesSettled i outs) s =
     Some (s\<lparr>imageRequests := drop_nth i (imageRequests s),
              images := spec_gallery (imageRequests s ! i) urlss\<rparr>)"
proof -
  from assms(3) have "length outs = length urlss" by (metis length_map)
  with assms(2) have l: "length outs = length (imageRequests s ! i)" by simp
  from assms(2,3) have "allImages (imageRequests s ! i) outs =
      Some (spec_gallery (imageRequests s ! i) urlss)"
    by (rule allImages_success)
  with assms(1) l show ?thesis by (simp add: fetchImages_def)
qed

lemma settle_failure:
  assumes "i < length (imageRequests s)"
    and "length outs = length (imageRequests s ! i)"
    and "list_ex reaches_catch outs"
  shows "step (ImagesSettled i outs) s =
     Some (s\<lparr>imageRequests := drop_nth i (imageRequests s),
              error := Some ''Error fetching images''\<rparr>)"
proof -
  from assms(2,3) have "allImages (imageRequests s ! i) outs = None"
    by (rule allImages_failure)
  with assms(1,2) show ?thesis by (simp add: fetchImages_def)
qed

lemma mutation_effect:
  assumes "mutates_selection e" and "step e s = Some s'"
  shows "(selectedBreeds s' = [] \<longrightarrow> images s' = [] \<and> imageRequests s' = imageRequests s) \<and>
         (selectedBreeds s' \<noteq> [] \<longrightarrow>
            images s' = images s \<and> imageRequests s' = imageRequests s @ [selectedBreeds s'])"
proof (cases e)
  case (CheckboxToggled b)
  with assms(2) show ?thesis
    by (auto simp: handleBreedSelection_def selectedBreeds_effect_def split: if_splits)
next
  case (RandomClicked shuffled)
  with assms(2) show ?thesis
    by (auto simp: loadRandomBreeds_def selectedBreeds_effect_def split: if_splits)
qed (use assms(1) in simp_all)

subsection \<open>The sample states are states of the page\<close>

lemma step_tick: "step (CheckboxToggled ''akita'') catalog_loaded = Some akita_ticked"
  by code_simp


lemma run_akita_ticked:
  "run [BreedsSettled two_breeds, CheckboxToggled ''akita''] mounted = Some akita_ticked"
  by code_simp

lemma run_gallery_shown:
  "run [BreedsSettled two_breeds, CheckboxToggled ''akita'',
        ImagesSettled 0 [served three_urls ''akita''], CheckboxToggled ''beagle''] mounted =
   Some beagle_ticked"
  by code_simp


lemma run_both_in_flight:
  "run [BreedsSettled two_breeds, CheckboxToggled ''akita'', CheckboxToggled ''beagle''] mounted =
   Some both_in_flight"
  by code_simp




lemma both_shown_facts:
  "imageRequests both_shown = []"
  "''akita'' \<in> set (filteredBreeds (breeds both_shown) (searchTerm both_shown))"
  "distinct (selectedBreeds both_shown)"
  "images both_shown =
     spec_gallery (selectedBreeds both_shown) (map three_urls (selectedBreeds both_shown))"
  by code_simp+


lemma run_both_shown:
  "run [BreedsSettled two_breeds, CheckboxToggled ''akita'',
        ImagesSettled 0 [served three_urls ''akita''], CheckboxToggled ''beagle'',
        ImagesSettled 0 [served three_urls ''akita'', served three_urls ''beagle'']] mounted =
   Some both_shown"
  by code_simp

lemma lab_example:
  "filteredBreeds [''affenpinscher'', ''labrador''] (toLowerCase ''lab'') = [''labrador'']"
  by code_simp


lemma upper_example:
  "filteredBreeds [''Affenpinscher'', ''Labrador'', ''black-lab''] (toLowerCase ''LaB'') =
     [''Labrador'', ''black-lab'']"
  by code_simp


lemma two_breeds_keys: "fetchBreeds_keys two_breeds = Some [''akita'', ''beagle'']"
  by code_simp

lemma two_breeds_loaded: "fetchBreeds two_breeds mounted = catalog_loaded"
  by code_simp


lemma run_catalog_down:
  "run [BreedsSettled Rejected, SearchTyped ''A'', RandomClicked []] mounted = Some catalog_down"
  by code_simp

lemma capitals_example:
  "filteredBreeds [''Affenpinscher'', ''LABRADOR''] (toLowerCase ''Lab'') = [''LABRADOR'']"
  by code_simp

lemma eag_example:
  "filteredBreeds [''akita'', ''beagle''] (toLowerCase ''EAG'') = [''beagle'']"
  by code_simp

lemma both_shown_sel:
  "selectedBreeds both_shown = [''akita'', ''beagle'']"
  "toggle ''akita'' (toggle ''akita'' [''akita'', ''beagle'']) = [''beagle'', ''akita'']"
  by (simp_all add: both_shown_def toggle_def)


subsection \<open>Runs in which recomputes succeed and do not overlap\<close>

lemma all_succeeded:
  "\<not> list_ex reaches_catch outs \<Longrightarrow>
   map image_urls outs = map Some (map (the \<circ> image_urls) outs)"
  by (induction outs) (auto simp: reaches_catch_def)






lemma in_catch_iff:
  "list_ex reaches_catch outs \<longleftrightarrow>
     (\<exists>out\<in>set outs. out = Rejected \<or> (\<exists>status. out = Response status None) \<or>
        (\<exists>status r. out = Response status (Some r) \<and>
           (\<forall>us. get_prop ''message'' r \<noteq> Some (JArr us))))"
  unfolding list_ex_iff by (rule bex_cong [OF refl]) (rule reaches_catch_iff)


subsection \<open>Toggling a breed twice\<close>

lemma spec_gallery_map:
  "spec_gallery sel (map f sel) = concat (map (\<lambda>b. map (\<lambda>u. \<lparr>url = u, breed = b\<rparr>) (f b)) sel)"
  by (induction sel) (simp_all add: spec_gallery_def)

lemma gallery_perm:
  assumes "mset sel = mset sel'"
  shows "mset (spec_gallery sel (map f sel)) = mset (spec_gallery sel' (map f sel'))"
proof -
  have "mset (concat (map g xs)) = (\<Sum>x\<in>#mset xs. mset (g x))"
    for g :: "string \<Rightarrow> image_entry list" and xs
    by (induction xs) simp_all
  with assms show ?thesis by (simp add: spec_gallery_map)
qed

lemma filter_absent: "b \<notin> set sel \<Longrightarrow> filter (\<lambda>x. x \<noteq> b) sel = sel"
  by (induction sel) auto

lemma reappend_mset:
  "distinct sel \<Longrightarrow> b \<in> set sel \<Longrightarrow> mset (filter (\<lambda>x. x \<noteq> b) sel @ [b]) = mset sel"
  by (induction sel) (auto simp: filter_absent simp del: mset_filter)

lemma toggle_twice_absent: "b \<notin> set sel \<Longrightarrow> toggle b (toggle b sel) = sel"
  by (simp add: toggle_def filter_absent)

lemma toggle_twice_present:
  "b \<in> set sel \<Longrightarrow> toggle b (toggle b sel) = filter (\<lambda>x. x \<noteq> b) sel @ [b]"
  by (simp add: toggle_def)

lemma toggle_twice_mset: "distinct sel \<Longrightarrow> mset (toggle b (toggle b sel)) = mset sel"
proof (cases "b \<in> set sel")
  case True
  assume "distinct sel"
  then show ?thesis using True reappend_mset [of sel b]
    by (simp add: toggle_twice_present del: mset_filter mset_append)
next
  case False
  then show ?thesis by (simp add: toggle_twice_absent)
qed

lemma toggle_and_settle_eq:
  assumes "imageRequests s = []" and "b \<in> set (filteredBreeds (breeds s) (searchTerm s))"
  shows "toggle_and_settle f b s =
     Some (s\<lparr>selectedBreeds := toggle b (selectedBreeds s),
              images := spec_gallery (toggle b (selectedBreeds s))
                          (map f (toggle b (selectedBreeds s))),
              imageRequests := []\<rparr>)"
proof (cases "toggle b (selectedBreeds s) = []")
  case True
  with assms show ?thesis
    by (simp add: toggle_and_settle_def handleBreedSelection_def selectedBreeds_effect_def
        settle_events_def spec_gallery_def)
next
  case False
  define sel where "sel = toggle b (selectedBreeds s)"
  define s1 where "s1 = s\<lparr>selectedBreeds := sel, imageRequests := [sel]\<rparr>"
  from assms False have st: "step (CheckboxToggled b) s = Some s1"
    by (simp add: handleBreedSelection_def selectedBreeds_effect_def s1_def sel_def)
  have ev: "settle_events f s1 = [ImagesSettled 0 (map (served f) sel)]"
    by (simp add: settle_events_def s1_def)
  have "step (ImagesSettled 0 (map (served f) sel)) s1 =
     Some (s1\<lparr>imageRequests := drop_nth 0 (imageRequests s1),
              images := spec_gallery (imageRequests s1 ! 0) (map f sel)\<rparr>)"
    by (rule settle_success) (simp_all add: s1_def image_urls_served comp_def)
  then have "run (settle_events f s1) s1 =
     Some (s\<lparr>selectedBreeds := sel, images := spec_gallery sel (map f sel),
              imageRequests := []\<rparr>)"
    unfolding ev by (simp add: s1_def drop_nth_def del: step.simps)
  with st show ?thesis by (simp add: toggle_and_settle_def sel_def)
qed

subsection \<open>What \<open>fetchBreeds\<close> computes\<close>

lemma fetchBreeds_keys_Some:
  "fetchBreeds_keys out = Some ks \<longleftrightarrow>
     (\<exists>status data keys. out = Response status (Some data) \<and>
        Object_keys (get_prop ''message'' data) = Some keys \<and> ks = sort keys)"
proof (cases out)
  case Rejected
  then show ?thesis by simp
next
  case (Response status body)
  then show ?thesis by (cases body) auto
qed


lemma fetchBreeds_keys_None:
  "fetchBreeds_keys out = None \<longleftrightarrow>
     out = Rejected \<or> (\<exists>status. out = Response status None) \<or>
     (\<exists>status data. out = Response status (Some data) \<and>
        (get_prop ''message'' data = None \<or> get_prop ''message'' data = Some JNull))"
proof (cases out)
  case Rejected
  then show ?thesis by simp
next
  case (Response status body)
  show ?thesis
  proof (cases body)
    case None
    with Response show ?thesis by simp
  next
    case (Some data)
    have "Object_keys v = None \<longleftrightarrow> v = None \<or> v = Some JNull" for v
      by (induction v rule: Object_keys.induct) simp_all
    with Response Some show ?thesis by simp
  qed
qed

lemma step_catalog_failed:
  assumes "step e s = Some s'" and "catalog_failed s"
  shows "catalog_failed s'"
proof (cases e)
  case (BreedsSettled out)
  with assms show ?thesis by (auto simp: catalog_failed_def split: if_splits)
next
  case (ImagesSettled i outs)
  with assms show ?thesis by (auto simp: catalog_failed_def split: if_splits)
next
  case (CheckboxToggled b)
  with assms show ?thesis by (auto simp: catalog_failed_def filteredBreeds_def split: if_splits)
next
  case (SearchTyped v)
  with assms show ?thesis by (auto simp: catalog_failed_def handleSearch_def)
next
  case (RandomClicked shuffled)
  with assms show ?thesis
    by (auto simp: catalog_failed_def loadRandomBreeds_def selectedBreeds_effect_def
        split: if_splits)
next
  case (ThemeChosen t)
  with assms show ?thesis by (auto simp: catalog_failed_def split: if_splits)
next
  case (ShowNamesSwitched v)
  with assms show ?thesis by (auto simp: catalog_failed_def)
qed

lemma run_catalog_failed: "run es s = Some s' \<Longrightarrow> catalog_failed s \<Longrightarrow> catalog_failed s'"
proof (induction es arbitrary: s)
  case Nil
  then show ?case by simp
next
  case (Cons e es)
  then show ?case by (auto split: option.splits dest: step_catalog_failed)
qed


section \<open>The insertion order of the selection\<close>

text \<open>
  C10. On a selection without duplicates, toggling a breed that is not selected appends it
  at the end, and toggling a selected breed removes every occurrence of it; so toggling a
  selected breed off and on again leaves it in the last position. The result has no
  duplicates, and in every state the page can reach, whatever the events and the order in
  which requests settle, \<open>selectedBreeds\<close> holds no name twice (\<open>loadRandomBreeds\<close> keeps
  the first three names of a rearranged catalog, which holds no name twice either).
\<close>

theorem toggle_insertion_order:
  "(distinct sel \<longrightarrow>
      (b \<notin> set sel \<longrightarrow> toggle b sel = sel @ [b]) \<and>
      (b \<in> set sel \<longrightarrow> toggle b sel = filter (\<lambda>x. x \<noteq> b) sel \<and> b \<notin> set (toggle b sel)) \<and>
      (b \<in> set sel \<longrightarrow> toggle b (toggle b sel) = filter (\<lambda>x. x \<noteq> b) sel @ [b]) \<and>
      distinct (toggle b sel)) \<and>
   (run es mounted = Some s \<longrightarrow> distinct (selectedBreeds s))"
proof (intro conjI impI)
  assume "run es mounted = Some s"
  then have "sel_inv s" using mounted_sel_inv by (rule run_sel_inv)
  then show "distinct (selectedBreeds s)" by (simp add: sel_inv_def)
qed (simp_all add: toggle_def)

theorem toggle_insertion_order_witness:
  "distinct [''akita'', ''beagle''] \<and> ''akita'' \<in> set [''akita'', ''beagle''] \<and>
   toggle ''akita'' [''akita'', ''beagle''] = [''beagle''] \<and>
   toggle ''akita'' (toggle ''akita'' [''akita'', ''beagle'']) = [''beagle'', ''akita''] \<and>
   toggle ''chow'' [''akita'', ''beagle''] = [''akita'', ''beagle'', ''chow''] \<and>
   run [BreedsSettled two_breeds, CheckboxToggled ''akita''] mounted = Some akita_ticked \<and>
   distinct (selectedBreeds akita_ticked)"
proof -
  have d: "distinct [''akita'', ''beagle'']" by simp
  have t: "toggle ''chow'' [''akita'', ''beagle''] = [''akita'', ''beagle'', ''chow'']"
    by (simp add: toggle_def)
  show ?thesis
    using toggle_insertion_order [of "[''akita'', ''beagle'']" "''akita''"
        "[BreedsSettled two_breeds, CheckboxToggled ''akita'']" akita_ticked]
      run_akita_ticked d t
    by (simp add: toggle_def del: run.simps)
qed

section \<open>Recomputing the gallery\<close>

text \<open>
  C1. When the recompute issued for a non-empty selection \<open>sel\<close> settles with every
  per-breed request delivering its array of URLs, \<open>images\<close> becomes the concatenation, in
  the order of \<open>sel\<close>, of each breed's URLs paired with the breed's name; that is
  \<open>3 * length sel\<close> entries when every array has three URLs. An event that replaces the
  selection issues exactly one recompute, for the new selection, when that is not empty; when
  it is empty, \<open>images\<close> is emptied at once and no request is issued.
\<close>

theorem recompute_gallery:
  "(i < length (imageRequests s) \<and> imageRequests s ! i = sel \<and> sel \<noteq> [] \<and>
    length urlss = length sel \<and> map image_urls outs = map Some urlss \<longrightarrow>
      map_option images (step (ImagesSettled i outs) s) = Some (spec_gallery sel urlss) \<and>
      ((\<forall>us\<in>set urlss. length us = 3) \<longrightarrow>
         map_option (length \<circ> images) (step (ImagesSettled i outs) s) = Some (3 * length sel))) \<and>
   (mutates_selection e \<and> step e t = Some t' \<longrightarrow>
      (selectedBreeds t' = [] \<longrightarrow> images t' = [] \<and> imageRequests t' = imageRequests t) \<and>
      (selectedBreeds t' \<noteq> [] \<longrightarrow>
         images t' = images t \<and> imageRequests t' = imageRequests t @ [selectedBreeds t']))"
proof -
  have settled:
    "map_option images (step (ImagesSettled i outs) s) = Some (spec_gallery sel urlss) \<and>
      ((\<forall>us\<in>set urlss. length us = 3) \<longrightarrow>
         map_option (length \<circ> images) (step (ImagesSettled i outs) s) = Some (3 * length sel))"
    if a: "i < length (imageRequests s) \<and> imageRequests s ! i = sel \<and> sel \<noteq> [] \<and>
      length urlss = length sel \<and> map image_urls outs = map Some urlss"
  proof -
    from a have st: "step (ImagesSettled i outs) s =
       Some (s\<lparr>imageRequests := drop_nth i (imageRequests s), images := spec_gallery sel urlss\<rparr>)"
      using settle_success [of i s urlss outs] by simp
    have "length (spec_gallery sel urlss) = 3 * length sel"
      if "\<forall>us\<in>set urlss. length us = 3"
      using a that by (simp add: spec_gallery_length)
    with st show ?thesis by simp
  qed
  have issued:
    "(selectedBreeds t' = [] \<longrightarrow> images t' = [] \<and> imageRequests t' = imageRequests t) \<and>
      (selectedBreeds t' \<noteq> [] \<longrightarrow>
         images t' = images t \<and> imageRequests t' = imageRequests t @ [selectedBreeds t'])"
    if "mutates_selection e \<and> step e t = Some t'"
    using that mutation_effect [of e t t'] by blast
  from settled issued show ?thesis by blast
qed


theorem recompute_gallery_witness:
  "(0 < length (imageRequests akita_ticked) \<and> imageRequests akita_ticked ! 0 = [''akita''] \<and>
    [''akita''] \<noteq> [] \<and> length [three_urls ''akita''] = length [''akita''] \<and>
    map image_urls [served three_urls ''akita''] = map Some [three_urls ''akita'']) \<and>
   map_option images (step (ImagesSettled 0 [served three_urls ''akita'']) akita_ticked) =
     Some (spec_gallery [''akita''] [three_urls ''akita'']) \<and>
   length (three_urls ''akita'') = 3 \<and>
   map_option (length \<circ> images) (step (ImagesSettled 0 [served three_urls ''akita'']) akita_ticked) =
     Some (3 * length [''akita'']) \<and>
   (mutates_selection (CheckboxToggled ''akita'') \<and>
    step (CheckboxToggled ''akita'') catalog_loaded = Some akita_ticked) \<and>
   selectedBreeds akita_ticked \<noteq> [] \<and>
   images akita_ticked = images catalog_loaded \<and>
   imageRequests akita_ticked = imageRequests catalog_loaded @ [selectedBreeds akita_ticked]"
proof -
  have h1: "0 < length (imageRequests akita_ticked) \<and> imageRequests akita_ticked ! 0 = [''akita''] \<and>
    [''akita''] \<noteq> [] \<and> length [three_urls ''akita''] = length [''akita''] \<and>
    map image_urls [served three_urls ''akita''] = map Some [three_urls ''akita'']"
    by (simp add: akita_ticked_def image_urls_served)
  have h2: "\<forall>us\<in>set [three_urls ''akita'']. length us = 3"
    by (simp add: three_urls_def)
  have h3: "mutates_selection (CheckboxToggled ''akita'') \<and>
    step (CheckboxToggled ''akita'') catalog_loaded = Some akita_ticked"
    using step_tick by simp
  have h4: "selectedBreeds akita_ticked \<noteq> []"
    by (simp add: akita_ticked_def)
  have h5: "length (three_urls ''akita'') = 3"
    by (simp add: three_urls_def)
  show ?thesis
    using recompute_gallery [where i = 0 and s = akita_ticked and sel = "[''akita'']"
        and urlss = "[three_urls ''akita'']" and outs = "[served three_urls ''akita'']"
        and e = "CheckboxToggled ''akita''" and t = catalog_loaded and t' = akita_ticked]
      h1 h2 h3 h4 h5
    by blast
qed

section \<open>A failed image request\<close>

text \<open>
  The status of a response is not read here either. With the gallery of \<open>akita\<close> on
  display, tick \<open>beagle\<close>, and let the request for \<open>beagle\<close> come back with status 500 and
  a body that carries three URLs: by the specification that fetch has failed, yet the
  gallery is replaced by the entries of both breeds and no error is set.
\<close>

theorem non_2xx_is_committed:
  "spec_fetch_error beagle_500 \<and>
   map_option images
     (run [BreedsSettled two_breeds, CheckboxToggled ''akita'',
           ImagesSettled 0 [served three_urls ''akita''], CheckboxToggled ''beagle''] mounted) =
     Some (spec_gallery [''akita''] [three_urls ''akita'']) \<and>
   map_option images
     (run [BreedsSettled two_breeds, CheckboxToggled ''akita'',
           ImagesSettled 0 [served three_urls ''akita''], CheckboxToggled ''beagle'',
           ImagesSettled 0 [served three_urls ''akita'', beagle_500]] mounted) =
     Some (spec_gallery [''akita'', ''beagle''] [three_urls ''akita'', three_urls ''beagle'']) \<and>
   map_option error
     (run [BreedsSettled two_breeds, CheckboxToggled ''akita'',
           ImagesSettled 0 [served three_urls ''akita''], CheckboxToggled ''beagle'',
           ImagesSettled 0 [served three_urls ''akita'', beagle_500]] mounted) = Some None \<and>
   spec_gallery [''akita'', ''beagle''] [three_urls ''akita'', three_urls ''beagle''] \<noteq>
     spec_gallery [''akita''] [three_urls ''akita'']"
  by code_simp


text \<open>
  C3, as the page behaves. When a recompute settles and at least one of its per-breed
  requests has been rejected, or has a body that is not JSON, or has a JSON body without an
  array under \<open>message\<close>, the update is abandoned: \<open>images\<close> keeps the entries it had,
  neither emptied nor partly filled, and the one \<open>error\<close> slot is set to the message for a
  failed image fetch. When no request is of these kinds, the gallery is committed and the
  error slot is left as it was, whatever the statuses of the responses.
\<close>

theorem failed_fetch_keeps_gallery:
  "i < length (imageRequests s) \<and> length outs = length (imageRequests s ! i) \<longrightarrow>
     ((\<exists>out\<in>set outs. out = Rejected \<or> (\<exists>status. out = Response status None) \<or>
         (\<exists>status r. out = Response status (Some r) \<and>
            (\<forall>us. get_prop ''message'' r \<noteq> Some (JArr us)))) \<longrightarrow>
        step (ImagesSettled i outs) s =
          Some (s\<lparr>imageRequests := drop_nth i (imageRequests s),
                   error := Some ''Error fetching images''\<rparr>) \<and>
        map_option images (step (ImagesSettled i outs) s) = Some (images s) \<and>
        map_option error (step (ImagesSettled i outs) s) =
          Some (Some ''Error fetching images'')) \<and>
     (\<not> (\<exists>out\<in>set outs. out = Rejected \<or> (\<exists>status. out = Response status None) \<or>
         (\<exists>status r. out = Response status (Some r) \<and>
            (\<forall>us. get_prop ''message'' r \<noteq> Some (JArr us)))) \<longrightarrow>
        (\<exists>urlss. map image_urls outs = map Some urlss \<and>
           map_option images (step (ImagesSettled i outs) s) =
             Some (spec_gallery (imageRequests s ! i) urlss)) \<and>
        map_option error (step (ImagesSettled i outs) s) = Some (error s))"
proof
  assume a: "i < length (imageRequests s) \<and> length outs = length (imageRequests s ! i)"
  have aborted: "step (ImagesSettled i outs) s =
          Some (s\<lparr>imageRequests := drop_nth i (imageRequests s),
                   error := Some ''Error fetching images''\<rparr>) \<and>
        map_option images (step (ImagesSettled i outs) s) = Some (images s) \<and>
        map_option error (step (ImagesSettled i outs) s) =
          Some (Some ''Error fetching images'')"
    if "list_ex reaches_catch outs"
  proof -
    from a that have "step (ImagesSettled i outs) s =
       Some (s\<lparr>imageRequests := drop_nth i (imageRequests s),
                error := Some ''Error fetching images''\<rparr>)"
      using settle_failure [of i s outs] by blast
    then show ?thesis by simp
  qed
  have committed: "(\<exists>urlss. map image_urls outs = map Some urlss \<and>
           map_option images (step (ImagesSettled i outs) s) =
             Some (spec_gallery (imageRequests s ! i) urlss)) \<and>
        map_option error (step (ImagesSettled i outs) s) = Some (error s)"
    if "\<not> list_ex reaches_catch outs"
  proof -
    define urlss where "urlss = map (the \<circ> image_urls) outs"
    from that have m: "map image_urls outs = map Some urlss"
      by (simp add: urlss_def all_succeeded)
    from a have "length urlss = length (imageRequests s ! i)" by (simp add: urlss_def)
    with a m have "step (ImagesSettled i outs) s =
       Some (s\<lparr>imageRequests := drop_nth i (imageRequests s),
                images := spec_gallery (imageRequests s ! i) urlss\<rparr>)"
      using settle_success [of i s urlss outs] by blast
    then have "map_option images (step (ImagesSettled i outs) s) =
        Some (spec_gallery (imageRequests s ! i) urlss)"
      "map_option error (step (ImagesSettled i outs) s) = Some (error s)"
      by simp_all
    with m show ?thesis by blast
  qed
  from aborted committed
  show "((\<exists>out\<in>set outs. out = Rejected \<or> (\<exists>status. out = Response status None) \<or>
         (\<exists>status r. out = Response status (Some r) \<and>
            (\<forall>us. get_prop ''message'' r \<noteq> Some (JArr us)))) \<longrightarrow>
        step (ImagesSettled i outs) s =
          Some (s\<lparr>imageRequests := drop_nth i (imageRequests s),
                   error := Some ''Error fetching images''\<rparr>) \<and>
        map_option images (step (ImagesSettled i outs) s) = Some (images s) \<and>
        map_option error (step (ImagesSettled i outs) s) =
          Some (Some ''Error fetching images'')) \<and>
     (\<not> (\<exists>out\<in>set outs. out = Rejected \<or> (\<exists>status. out = Response status None) \<or>
         (\<exists>status r. out = Response status (Some r) \<and>
            (\<forall>us. get_prop ''message'' r \<noteq> Some (JArr us)))) \<longrightarrow>
        (\<exists>urlss. map image_urls outs = map Some urlss \<and>
           map_option images (step (ImagesSettled i outs) s) =
             Some (spec_gallery (imageRequests s ! i) urlss)) \<and>
        map_option error (step (ImagesSettled i outs) s) = Some (error s))"
    unfolding in_catch_iff [symmetric] by blast
qed


theorem failed_fetch_keeps_gallery_witness:
  "(0 < length (imageRequests beagle_ticked) \<and>
    length [served three_urls ''akita'', Rejected] = length (imageRequests beagle_ticked ! 0)) \<and>
   Rejected \<in> set [served three_urls ''akita'', Rejected] \<and>
   images beagle_ticked = spec_gallery [''akita''] [three_urls ''akita''] \<and>
   map_option images
     (step (ImagesSettled 0 [served three_urls ''akita'', Rejected]) beagle_ticked) =
     Some (spec_gallery [''akita''] [three_urls ''akita'']) \<and>
   map_option error
     (step (ImagesSettled 0 [served three_urls ''akita'', Rejected]) beagle_ticked) =
     Some (Some ''Error fetching images'')"
proof -
  have h: "0 < length (imageRequests beagle_ticked) \<and>
    length [served three_urls ''akita'', Rejected] = length (imageRequests beagle_ticked ! 0)"
    by (simp add: beagle_ticked_def)
  have r: "\<exists>out\<in>set [served three_urls ''akita'', Rejected].
      out = Rejected \<or> (\<exists>status. out = Response status None) \<or>
      (\<exists>status r. out = Response status (Some r) \<and>
         (\<forall>us. get_prop ''message'' r \<noteq> Some (JArr us)))"
    by simp
  have g: "images beagle_ticked = spec_gallery [''akita''] [three_urls ''akita'']"
    by (simp add: beagle_ticked_def)
  note t = failed_fetch_keeps_gallery [where i = 0 and s = beagle_ticked
        and outs = "[served three_urls ''akita'', Rejected]"]
  from t h r have "map_option images
      (step (ImagesSettled 0 [served three_urls ''akita'', Rejected]) beagle_ticked) =
      Some (images beagle_ticked)"
    "map_option error
      (step (ImagesSettled 0 [served three_urls ''akita'', Rejected]) beagle_ticked) =
      Some (Some ''Error fetching images'')"
    by blast+
  with h g show ?thesis by simp
qed

section \<open>Two recomputes in flight\<close>

text \<open>
  The page has no generation check. Tick \<open>akita\<close>, then \<open>beagle\<close> before the first
  recompute has settled; let the second recompute settle first and the first one last. The
  result of the first, superseded recompute is committed: the gallery ends up holding the
  images of \<open>akita\<close> alone while both breeds are selected and nothing is in flight.
\<close>

theorem stale_result_committed:
  "map_option images
     (run [BreedsSettled two_breeds, CheckboxToggled ''akita'', CheckboxToggled ''beagle'',
           ImagesSettled 1 [served three_urls ''akita'', served three_urls ''beagle''],
           ImagesSettled 0 [served three_urls ''akita'']] mounted) =
     Some (spec_gallery [''akita''] [three_urls ''akita'']) \<and>
   map_option selectedBreeds
     (run [BreedsSettled two_breeds, CheckboxToggled ''akita'', CheckboxToggled ''beagle'',
           ImagesSettled 1 [served three_urls ''akita'', served three_urls ''beagle''],
           ImagesSettled 0 [served three_urls ''akita'']] mounted) =
     Some [''akita'', ''beagle''] \<and>
   map_option imageRequests
     (run [BreedsSettled two_breeds, CheckboxToggled ''akita'', CheckboxToggled ''beagle'',
           ImagesSettled 1 [served three_urls ''akita'', served three_urls ''beagle''],
           ImagesSettled 0 [served three_urls ''akita'']] mounted) =
     Some [] \<and>
   spec_gallery [''akita''] [three_urls ''akita''] \<noteq>
     spec_gallery [''akita'', ''beagle''] [three_urls ''akita'', three_urls ''beagle'']"
  by code_simp


text \<open>
  C2, as the page behaves. Every recompute that settles successfully commits its own
  complete result to \<open>images\<close>, whether or not the selection has been replaced since it
  was issued, and leaves the selection as it is. What is committed is always the result of
  one invocation, never a mix of two. With two recomputes in flight, the gallery after both
  have settled is that of the one that settled last: the newer one's when they settle in
  the order of issue, the older one's when they settle in the opposite order.
\<close>

theorem last_settled_recompute_wins:
  "i < j \<and> j < length (imageRequests s) \<and>
   length urlsA = length (imageRequests s ! i) \<and> map image_urls outsA = map Some urlsA \<and>
   length urlsB = length (imageRequests s ! j) \<and> map image_urls outsB = map Some urlsB \<longrightarrow>
     map_option images (step (ImagesSettled i outsA) s) =
       Some (spec_gallery (imageRequests s ! i) urlsA) \<and>
     map_option selectedBreeds (step (ImagesSettled i outsA) s) = Some (selectedBreeds s) \<and>
     map_option images (run [ImagesSettled i outsA, ImagesSettled (j - 1) outsB] s) =
       Some (spec_gallery (imageRequests s ! j) urlsB) \<and>
     map_option images (run [ImagesSettled j outsB, ImagesSettled i outsA] s) =
       Some (spec_gallery (imageRequests s ! i) urlsA)"
proof
  assume a: "i < j \<and> j < length (imageRequests s) \<and>
   length urlsA = length (imageRequests s ! i) \<and> map image_urls outsA = map Some urlsA \<and>
   length urlsB = length (imageRequests s ! j) \<and> map image_urls outsB = map Some urlsB"
  define s1 where "s1 = s\<lparr>imageRequests := drop_nth i (imageRequests s),
              images := spec_gallery (imageRequests s ! i) urlsA\<rparr>"
  define s2 where "s2 = s\<lparr>imageRequests := drop_nth j (imageRequests s),
              images := spec_gallery (imageRequests s ! j) urlsB\<rparr>"
  from a have first: "step (ImagesSettled i outsA) s = Some s1"
    unfolding s1_def by (intro settle_success) auto
  from a have second: "step (ImagesSettled j outsB) s = Some s2"
    unfolding s2_def by (intro settle_success) auto
  from a have r1:
    "imageRequests s1 ! (j - 1) = imageRequests s ! j" "j - 1 < length (imageRequests s1)"
    using drop_nth_after [of i j "imageRequests s"] by (auto simp: s1_def drop_nth_length)
  from a have r2: "imageRequests s2 ! i = imageRequests s ! i" "i < length (imageRequests s2)"
    using drop_nth_before [of i j "imageRequests s"] by (auto simp: s2_def drop_nth_length)
  have "step (ImagesSettled (j - 1) outsB) s1 =
      Some (s1\<lparr>imageRequests := drop_nth (j - 1) (imageRequests s1),
              images := spec_gallery (imageRequests s1 ! (j - 1)) urlsB\<rparr>)"
    using a r1 by (intro settle_success) auto
  with first r1 have i_then_j:
    "map_option images (run [ImagesSettled i outsA, ImagesSettled (j - 1) outsB] s) =
       Some (spec_gallery (imageRequests s ! j) urlsB)"
    by simp
  have "step (ImagesSettled i outsA) s2 =
      Some (s2\<lparr>imageRequests := drop_nth i (imageRequests s2),
              images := spec_gallery (imageRequests s2 ! i) urlsA\<rparr>)"
    using a r2 by (intro settle_success) auto
  with second r2 have j_then_i:
    "map_option images (run [ImagesSettled j outsB, ImagesSettled i outsA] s) =
       Some (spec_gallery (imageRequests s ! i) urlsA)"
    by simp
  from first have "map_option images (step (ImagesSettled i outsA) s) =
       Some (spec_gallery (imageRequests s ! i) urlsA)"
    "map_option selectedBreeds (step (ImagesSettled i outsA) s) = Some (selectedBreeds s)"
    by (simp_all add: s1_def)
  with i_then_j j_then_i show "map_option images (step (ImagesSettled i outsA) s) =
       Some (spec_gallery (imageRequests s ! i) urlsA) \<and>
     map_option selectedBreeds (step (ImagesSettled i outsA) s) = Some (selectedBreeds s) \<and>
     map_option images (run [ImagesSettled i outsA, ImagesSettled (j - 1) outsB] s) =
       Some (spec_gallery (imageRequests s ! j) urlsB) \<and>
     map_option images (run [ImagesSettled j outsB, ImagesSettled i outsA] s) =
       Some (spec_gallery (imageRequests s ! i) urlsA)"
    by blast
qed


theorem last_settled_recompute_wins_witness:
  "((0::nat) < 1 \<and> 1 < length (imageRequests both_in_flight) \<and>
    length [three_urls ''akita''] = length (imageRequests both_in_flight ! 0) \<and>
    map image_urls [served three_urls ''akita''] = map Some [three_urls ''akita''] \<and>
    length [three_urls ''akita'', three_urls ''beagle''] = length (imageRequests both_in_flight ! 1) \<and>
    map image_urls [served three_urls ''akita'', served three_urls ''beagle''] =
      map Some [three_urls ''akita'', three_urls ''beagle'']) \<and>
   map_option images (step (ImagesSettled 0 [served three_urls ''akita'']) both_in_flight) =
     Some (spec_gallery [''akita''] [three_urls ''akita'']) \<and>
   map_option selectedBreeds (step (ImagesSettled 0 [served three_urls ''akita'']) both_in_flight) =
     Some [''akita'', ''beagle''] \<and>
   map_option images
     (run [ImagesSettled 0 [served three_urls ''akita''],
           ImagesSettled 0 [served three_urls ''akita'', served three_urls ''beagle'']] both_in_flight) =
     Some (spec_gallery [''akita'', ''beagle''] [three_urls ''akita'', three_urls ''beagle'']) \<and>
   map_option images
     (run [ImagesSettled 1 [served three_urls ''akita'', served three_urls ''beagle''],
           ImagesSettled 0 [served three_urls ''akita'']] both_in_flight) =
     Some (spec_gallery [''akita''] [three_urls ''akita''])"
proof -
  have h: "(0::nat) < 1 \<and> 1 < length (imageRequests both_in_flight) \<and>
    length [three_urls ''akita''] = length (imageRequests both_in_flight ! 0) \<and>
    map image_urls [served three_urls ''akita''] = map Some [three_urls ''akita''] \<and>
    length [three_urls ''akita'', three_urls ''beagle''] = length (imageRequests both_in_flight ! 1) \<and>
    map image_urls [served three_urls ''akita'', served three_urls ''beagle''] =
      map Some [three_urls ''akita'', three_urls ''beagle'']"
    by (simp add: both_in_flight_def image_urls_served)
  have v: "imageRequests both_in_flight ! 0 = [''akita'']"
    "imageRequests both_in_flight ! Suc 0 = [''akita'', ''beagle'']"
    "selectedBreeds both_in_flight = [''akita'', ''beagle'']"
    by (simp_all add: both_in_flight_def)
  show ?thesis
    using last_settled_recompute_wins [where i = 0 and j = 1 and s = both_in_flight
        and urlsA = "[three_urls ''akita'']" and outsA = "[served three_urls ''akita'']"
        and urlsB = "[three_urls ''akita'', three_urls ''beagle'']"
        and outsB = "[served three_urls ''akita'', served three_urls ''beagle'']"] h
    by (simp add: v del: run.simps step.simps)
qed

section \<open>The gallery and the selection\<close>






section \<open>Toggling the same breed twice\<close>

text \<open>
  With \<open>akita\<close> and \<open>beagle\<close> on display, in this order, untick \<open>akita\<close> and tick it
  again, every recompute settling at once and the endpoint serving the same URLs: the
  selection comes back as \<open>beagle\<close>, \<open>akita\<close> and the gallery with the images of \<open>beagle\<close>
  first. Neither is the sequence it was. With nothing selected, tick \<open>akita\<close> and untick
  it before its recompute has settled: the selection is empty again, and when the recompute
  settles the gallery, which was empty, holds the images of \<open>akita\<close>. And with \<open>akita\<close>
  on display, tick and untick \<open>beagle\<close>, every recompute settling at once, the endpoint
  serving other URLs than before, as a random endpoint does: the selection is the sequence
  it was, and the gallery shares no entry with the one that was on display.
\<close>

theorem toggle_twice_reorders:
  "map_option selectedBreeds
     (run [BreedsSettled two_breeds, CheckboxToggled ''akita'',
           ImagesSettled 0 [served three_urls ''akita''], CheckboxToggled ''beagle'',
           ImagesSettled 0 [served three_urls ''akita'', served three_urls ''beagle'']] mounted) =
     Some [''akita'', ''beagle''] \<and>
   map_option images
     (run [BreedsSettled two_breeds, CheckboxToggled ''akita'',
           ImagesSettled 0 [served three_urls ''akita''], CheckboxToggled ''beagle'',
           ImagesSettled 0 [served three_urls ''akita'', served three_urls ''beagle'']] mounted) =
     Some (spec_gallery [''akita'', ''beagle''] [three_urls ''akita'', three_urls ''beagle'']) \<and>
   map_option selectedBreeds
     (run [BreedsSettled two_breeds, CheckboxToggled ''akita'',
           ImagesSettled 0 [served three_urls ''akita''], CheckboxToggled ''beagle'',
           ImagesSettled 0 [served three_urls ''akita'', served three_urls ''beagle''],
           CheckboxToggled ''akita'', ImagesSettled 0 [served three_urls ''beagle''],
           CheckboxToggled ''akita'',
           ImagesSettled 0 [served three_urls ''beagle'', served three_urls ''akita'']] mounted) =
     Some [''beagle'', ''akita''] \<and>
   map_option images
     (run [BreedsSettled two_breeds, CheckboxToggled ''akita'',
           ImagesSettled 0 [served three_urls ''akita''], CheckboxToggled ''beagle'',
           ImagesSettled 0 [served three_urls ''akita'', served three_urls ''beagle''],
           CheckboxToggled ''akita'', ImagesSettled 0 [served three_urls ''beagle''],
           CheckboxToggled ''akita'',
           ImagesSettled 0 [served three_urls ''beagle'', served three_urls ''akita'']] mounted) =
     Some (spec_gallery [''beagle'', ''akita''] [three_urls ''beagle'', three_urls ''akita'']) \<and>
   [''beagle'', ''akita''] \<noteq> [''akita'', ''beagle''] \<and>
   spec_gallery [''beagle'', ''akita''] [three_urls ''beagle'', three_urls ''akita''] \<noteq>
     spec_gallery [''akita'', ''beagle''] [three_urls ''akita'', three_urls ''beagle''] \<and>
   map_option selectedBreeds
     (run [BreedsSettled two_breeds, CheckboxToggled ''akita'', CheckboxToggled ''akita'',
           ImagesSettled 0 [served three_urls ''akita'']] mounted) = Some [] \<and>
   map_option images
     (run [BreedsSettled two_breeds, CheckboxToggled ''akita'', CheckboxToggled ''akita'',
           ImagesSettled 0 [served three_urls ''akita'']] mounted) =
     Some (spec_gallery [''akita''] [three_urls ''akita'']) \<and>
   map_option images (run [BreedsSettled two_breeds] mounted) = Some [] \<and>
   spec_gallery [''akita''] [three_urls ''akita''] \<noteq> [] \<and>
   map_option images
     (run [BreedsSettled two_breeds, CheckboxToggled ''akita'',
           ImagesSettled 0 [served three_urls ''akita'']] mounted) =
     Some (spec_gallery [''akita''] [three_urls ''akita'']) \<and>
   map_option selectedBreeds
     (run [BreedsSettled two_breeds, CheckboxToggled ''akita'',
           ImagesSettled 0 [served three_urls ''akita''], CheckboxToggled ''beagle'',
           ImagesSettled 0 [served other_urls ''akita'', served other_urls ''beagle''],
           CheckboxToggled ''beagle'',
           ImagesSettled 0 [served other_urls ''akita'']] mounted) = Some [''akita''] \<and>
   map_option images
     (run [BreedsSettled two_breeds, CheckboxToggled ''akita'',
           ImagesSettled 0 [served three_urls ''akita''], CheckboxToggled ''beagle'',
           ImagesSettled 0 [served other_urls ''akita'', served other_urls ''beagle''],
           CheckboxToggled ''beagle'',
           ImagesSettled 0 [served other_urls ''akita'']] mounted) =
     Some (spec_gallery [''akita''] [other_urls ''akita'']) \<and>
   set (spec_gallery [''akita''] [other_urls ''akita'']) \<inter>
     set (spec_gallery [''akita''] [three_urls ''akita'']) = {}"
  by code_simp


text \<open>
  C5, as the page behaves. Toggling a breed twice gives back the selection itself when the
  breed was not selected, and the selection with the breed moved to the last position when
  it was; on a selection without duplicates that is the same set of breeds, rearranged.
  When every recompute settles successfully before the next toggle, the gallery after the
  two toggles is the gallery of the resulting selection, in its order, made of the URLs
  the last recompute fetched. If these are the URLs that were on display, the gallery is a
  rearrangement of the original entries, and the original sequence when the breed was not
  selected. Each toggle runs the selection effect: it issues its own recompute when the
  resulting selection is not empty and empties the gallery when it is.
\<close>

theorem toggle_twice_permutes:
  "((b \<in> set sel \<longrightarrow> toggle b (toggle b sel) = filter (\<lambda>x. x \<noteq> b) sel @ [b]) \<and>
    (b \<notin> set sel \<longrightarrow> toggle b (toggle b sel) = sel) \<and>
    (distinct sel \<longrightarrow>
       set (toggle b (toggle b sel)) = set sel \<and> mset (toggle b (toggle b sel)) = mset sel)) \<and>
   (imageRequests s = [] \<and> b \<in> set (filteredBreeds (breeds s) (searchTerm s)) \<and>
    distinct (selectedBreeds s) \<longrightarrow>
      (\<exists>s2. Option.bind (toggle_and_settle f b s) (toggle_and_settle f' b) = Some s2 \<and>
            imageRequests s2 = [] \<and>
            selectedBreeds s2 = toggle b (toggle b (selectedBreeds s)) \<and>
            images s2 = spec_gallery (selectedBreeds s2) (map f' (selectedBreeds s2)) \<and>
            (images s = spec_gallery (selectedBreeds s) (map f' (selectedBreeds s)) \<longrightarrow>
               mset (images s2) = mset (images s) \<and>
               (b \<notin> set (selectedBreeds s) \<longrightarrow> images s2 = images s)))) \<and>
   (step (CheckboxToggled b) t = Some t' \<longrightarrow>
      (selectedBreeds t' = [] \<longrightarrow> images t' = [] \<and> imageRequests t' = imageRequests t) \<and>
      (selectedBreeds t' \<noteq> [] \<longrightarrow>
         images t' = images t \<and> imageRequests t' = imageRequests t @ [selectedBreeds t']))"
proof -
  have algebra:
    "(b \<in> set sel \<longrightarrow> toggle b (toggle b sel) = filter (\<lambda>x. x \<noteq> b) sel @ [b]) \<and>
    (b \<notin> set sel \<longrightarrow> toggle b (toggle b sel) = sel) \<and>
    (distinct sel \<longrightarrow>
       set (toggle b (toggle b sel)) = set sel \<and> mset (toggle b (toggle b sel)) = mset sel)"
  proof -
    have "set (toggle b (toggle b sel)) = set sel \<and> mset (toggle b (toggle b sel)) = mset sel"
      if "distinct sel"
    proof -
      from that have m: "mset (toggle b (toggle b sel)) = mset sel" by (rule toggle_twice_mset)
      then have "set (toggle b (toggle b sel)) = set sel" by (rule mset_eq_setD)
      with m show ?thesis by simp
    qed
    then show ?thesis by (simp add: toggle_twice_absent toggle_twice_present)
  qed
  have settled:
    "\<exists>s2. Option.bind (toggle_and_settle f b s) (toggle_and_settle f' b) = Some s2 \<and>
            imageRequests s2 = [] \<and>
            selectedBreeds s2 = toggle b (toggle b (selectedBreeds s)) \<and>
            images s2 = spec_gallery (selectedBreeds s2) (map f' (selectedBreeds s2)) \<and>
            (images s = spec_gallery (selectedBreeds s) (map f' (selectedBreeds s)) \<longrightarrow>
               mset (images s2) = mset (images s) \<and>
               (b \<notin> set (selectedBreeds s) \<longrightarrow> images s2 = images s))"
    if a: "imageRequests s = [] \<and> b \<in> set (filteredBreeds (breeds s) (searchTerm s)) \<and>
      distinct (selectedBreeds s)"
  proof -
    define sel1 where "sel1 = toggle b (selectedBreeds s)"
    define s1 where "s1 = s\<lparr>selectedBreeds := sel1, images := spec_gallery sel1 (map f sel1),
      imageRequests := []\<rparr>"
    define sel2 where "sel2 = toggle b sel1"
    define s2 where "s2 = s1\<lparr>selectedBreeds := sel2, images := spec_gallery sel2 (map f' sel2),
      imageRequests := []\<rparr>"
    from a have first: "toggle_and_settle f b s = Some s1"
      unfolding s1_def sel1_def by (intro toggle_and_settle_eq) auto
    have "imageRequests s1 = []" "b \<in> set (filteredBreeds (breeds s1) (searchTerm s1))"
      "selectedBreeds s1 = sel1"
      using a by (simp_all add: s1_def)
    then have second: "toggle_and_settle f' b s1 = Some s2"
      unfolding s2_def sel2_def using toggle_and_settle_eq [of s1 b f'] by simp
    from a have m: "mset sel2 = mset (selectedBreeds s)"
      unfolding sel2_def sel1_def by (intro toggle_twice_mset) auto
    have g: "mset (spec_gallery sel2 (map f' sel2)) = mset (images s)"
      if "images s = spec_gallery (selectedBreeds s) (map f' (selectedBreeds s))"
      using m that gallery_perm [of sel2 "selectedBreeds s" f'] by simp
    have same: "sel2 = selectedBreeds s" if "b \<notin> set (selectedBreeds s)"
      using that by (simp add: sel2_def sel1_def toggle_twice_absent)
    from first second
    have "Option.bind (toggle_and_settle f b s) (toggle_and_settle f' b) = Some s2"
      by simp
    moreover have "imageRequests s2 = []" "selectedBreeds s2 = sel2"
      "images s2 = spec_gallery sel2 (map f' sel2)"
      by (simp_all add: s2_def)
    ultimately show ?thesis using g same
      by (auto simp: sel2_def sel1_def)
  qed
  have effect:
    "(selectedBreeds t' = [] \<longrightarrow> images t' = [] \<and> imageRequests t' = imageRequests t) \<and>
      (selectedBreeds t' \<noteq> [] \<longrightarrow>
         images t' = images t \<and> imageRequests t' = imageRequests t @ [selectedBreeds t'])"
    if "step (CheckboxToggled b) t = Some t'"
    using that mutation_effect [of "CheckboxToggled b" t t'] by simp
  from algebra settled effect show ?thesis by blast
qed

theorem toggle_twice_permutes_witness:
  "''akita'' \<in> set [''akita'', ''beagle''] \<and>
   toggle ''akita'' (toggle ''akita'' [''akita'', ''beagle'']) = [''beagle'', ''akita''] \<and>
   (imageRequests both_shown = [] \<and>
    ''akita'' \<in> set (filteredBreeds (breeds both_shown) (searchTerm both_shown)) \<and>
    distinct (selectedBreeds both_shown)) \<and>
   (\<exists>s2. Option.bind (toggle_and_settle three_urls ''akita'' both_shown)
           (toggle_and_settle other_urls ''akita'') = Some s2 \<and>
         imageRequests s2 = [] \<and>
         selectedBreeds s2 = [''beagle'', ''akita''] \<and>
         images s2 =
           spec_gallery [''beagle'', ''akita''] (map other_urls [''beagle'', ''akita''])) \<and>
   images both_shown =
     spec_gallery (selectedBreeds both_shown) (map three_urls (selectedBreeds both_shown)) \<and>
   (\<exists>s2. Option.bind (toggle_and_settle three_urls ''akita'' both_shown)
           (toggle_and_settle three_urls ''akita'') = Some s2 \<and>
         selectedBreeds s2 = [''beagle'', ''akita''] \<and>
         images s2 =
           spec_gallery [''beagle'', ''akita''] (map three_urls [''beagle'', ''akita'']) \<and>
         mset (images s2) = mset (images both_shown)) \<and>
   step (CheckboxToggled ''akita'') catalog_loaded = Some akita_ticked \<and>
   selectedBreeds akita_ticked \<noteq> [] \<and>
   imageRequests akita_ticked = imageRequests catalog_loaded @ [selectedBreeds akita_ticked]"
proof -
  have d: "''akita'' \<in> set [''akita'', ''beagle'']" by simp
  have n: "selectedBreeds akita_ticked \<noteq> []" by (simp add: akita_ticked_def)
  note fresh = toggle_twice_permutes [where sel = "[''akita'', ''beagle'']" and b = "''akita''"
        and s = both_shown and f = three_urls and f' = other_urls
        and t = catalog_loaded and t' = akita_ticked]
  note again = toggle_twice_permutes [where sel = "[''akita'', ''beagle'']" and b = "''akita''"
        and s = both_shown and f = three_urls and f' = three_urls
        and t = catalog_loaded and t' = akita_ticked]
  from fresh both_shown_facts(1-3)
  obtain s2 where "Option.bind (toggle_and_settle three_urls ''akita'' both_shown)
           (toggle_and_settle other_urls ''akita'') = Some s2"
    "imageRequests s2 = []"
    "selectedBreeds s2 = toggle ''akita'' (toggle ''akita'' (selectedBreeds both_shown))"
    "images s2 = spec_gallery (selectedBreeds s2) (map other_urls (selectedBreeds s2))"
    by blast
  then have a: "\<exists>s2. Option.bind (toggle_and_settle three_urls ''akita'' both_shown)
           (toggle_and_settle other_urls ''akita'') = Some s2 \<and>
         imageRequests s2 = [] \<and>
         selectedBreeds s2 = [''beagle'', ''akita''] \<and>
         images s2 =
           spec_gallery [''beagle'', ''akita''] (map other_urls [''beagle'', ''akita''])"
    by (simp add: both_shown_sel del: Option.bind.simps)
  from again both_shown_facts
  obtain s3 where "Option.bind (toggle_and_settle three_urls ''akita'' both_shown)
           (toggle_and_settle three_urls ''akita'') = Some s3"
    "selectedBreeds s3 = toggle ''akita'' (toggle ''akita'' (selectedBreeds both_shown))"
    "images s3 = spec_gallery (selectedBreeds s3) (map three_urls (selectedBreeds s3))"
    "mset (images s3) = mset (images both_shown)"
    by blast
  then have b: "\<exists>s2. Option.bind (toggle_and_settle three_urls ''akita'' both_shown)
           (toggle_and_settle three_urls ''akita'') = Some s2 \<and>
         selectedBreeds s2 = [''beagle'', ''akita''] \<and>
         images s2 =
           spec_gallery [''beagle'', ''akita''] (map three_urls [''beagle'', ''akita'']) \<and>
         mset (images s2) = mset (images both_shown)"
    by (simp add: both_shown_sel del: Option.bind.simps)
  from fresh step_tick n
  have c:
    "imageRequests akita_ticked = imageRequests catalog_loaded @ [selectedBreeds akita_ticked]"
    by blast
  from a b c d n both_shown_facts both_shown_sel(2) step_tick show ?thesis by blast
qed

section \<open>The search filter\<close>

text \<open>
  C7. Typing a search term leaves the selection, the gallery, the requests in flight and the
  catalog as they are. It changes only the breeds the picker shows: those whose name holds
  a contiguous run of characters equal to the term up to the case of letters. Filtering
  \<open>lab\<close> against \<open>affenpinscher\<close>, \<open>labrador\<close> shows \<open>labrador\<close>, and filtering \<open>Lab\<close>
  against \<open>Affenpinscher\<close>, \<open>LABRADOR\<close> shows \<open>LABRADOR\<close>.
\<close>

theorem search_only_filters:
  "selectedBreeds (handleSearch v s) = selectedBreeds s \<and>
   images (handleSearch v s) = images s \<and>
   imageRequests (handleSearch v s) = imageRequests s \<and>
   breeds (handleSearch v s) = breeds s \<and>
   step (SearchTyped v) s = Some (handleSearch v s) \<and>
   filteredBreeds (breeds (handleSearch v s)) (searchTerm (handleSearch v s)) =
     filter (\<lambda>b. \<exists>p m q. b = p @ m @ q \<and> ignoring_case m v) (breeds s) \<and>
   filteredBreeds [''affenpinscher'', ''labrador''] (searchTerm (handleSearch ''lab'' s)) =
     [''labrador''] \<and>
   filteredBreeds [''Affenpinscher'', ''LABRADOR''] (searchTerm (handleSearch ''Lab'' s)) =
     [''LABRADOR'']"
proof -
  have frame: "selectedBreeds (handleSearch v s) = selectedBreeds s \<and>
      images (handleSearch v s) = images s \<and>
      imageRequests (handleSearch v s) = imageRequests s \<and>
      breeds (handleSearch v s) = breeds s \<and>
      step (SearchTyped v) s = Some (handleSearch v s)"
    by (simp add: handleSearch_def)
  have shown: "filteredBreeds (breeds (handleSearch v s)) (searchTerm (handleSearch v s)) =
      filter (\<lambda>b. \<exists>p m q. b = p @ m @ q \<and> ignoring_case m v) (breeds s)"
    by (simp add: handleSearch_def filteredBreeds_def includes_ignoring_case)
  have stored: "searchTerm (handleSearch w s) = toLowerCase w" for w
    by (simp add: handleSearch_def)
  have small:
    "filteredBreeds [''affenpinscher'', ''labrador''] (searchTerm (handleSearch ''lab'' s)) =
      [''labrador'']"
    by (simp only: stored lab_example)
  have capitals:
    "filteredBreeds [''Affenpinscher'', ''LABRADOR''] (searchTerm (handleSearch ''Lab'' s)) =
      [''LABRADOR'']"
    by (simp only: stored capitals_example)
  from frame shown small capitals show ?thesis by blast
qed

theorem search_only_filters_witness:
  "selectedBreeds (handleSearch ''EAG'' akita_shown) = [''akita''] \<and>
   images (handleSearch ''EAG'' akita_shown) = spec_gallery [''akita''] [three_urls ''akita''] \<and>
   step (SearchTyped ''EAG'') akita_shown = Some (handleSearch ''EAG'' akita_shown) \<and>
   filteredBreeds (breeds (handleSearch ''EAG'' akita_shown))
     (searchTerm (handleSearch ''EAG'' akita_shown)) = [''beagle''] \<and>
   filter (\<lambda>b. \<exists>p m q. b = p @ m @ q \<and> ignoring_case m ''EAG'') (breeds akita_shown) =
     [''beagle''] \<and>
   filteredBreeds [''Affenpinscher'', ''LABRADOR'']
     (searchTerm (handleSearch ''Lab'' akita_shown)) = [''LABRADOR'']"
proof -
  have e: "filteredBreeds (breeds (handleSearch ''EAG'' akita_shown))
     (searchTerm (handleSearch ''EAG'' akita_shown)) = [''beagle'']"
    using eag_example
    by (simp add: handleSearch_def akita_shown_def catalog_loaded_def mounted_def)
  have f: "selectedBreeds akita_shown = [''akita'']"
    "images akita_shown = spec_gallery [''akita''] [three_urls ''akita'']"
    by (simp_all add: akita_shown_def)
  note t = search_only_filters [of "''EAG''" akita_shown]
  from t e f show ?thesis by (simp del: step.simps)
qed

section \<open>The random selection\<close>

text \<open>
  Whatever rearrangement of the catalog the random sort produces, \<open>loadRandomBreeds\<close>
  replaces the selection by its first three names, or by all of them when the catalog has
  fewer: they are distinct names of the catalog, and nothing of the previous selection is
  kept. How likely each rearrangement is depends on \<open>Math.random\<close> and on the sorting
  algorithm of the engine, which are outside this model.
\<close>

lemma loadRandomBreeds_sample:
  assumes "mset shuffled = mset (breeds s)" and "distinct (breeds s)"
  shows "selectedBreeds (loadRandomBreeds shuffled s) = take 3 shuffled"
    and "length (selectedBreeds (loadRandomBreeds shuffled s)) = min 3 (length (breeds s))"
    and "distinct (selectedBreeds (loadRandomBreeds shuffled s))"
    and "set (selectedBreeds (loadRandomBreeds shuffled s)) \<subseteq> set (breeds s)"
proof -
  show "selectedBreeds (loadRandomBreeds shuffled s) = take 3 shuffled"
    by (simp add: loadRandomBreeds_def)
  from assms(1) have "length shuffled = length (breeds s)" by (rule mset_eq_length)
  then show "length (selectedBreeds (loadRandomBreeds shuffled s)) = min 3 (length (breeds s))"
    by (simp add: loadRandomBreeds_def min.commute)
  from assms show "distinct (selectedBreeds (loadRandomBreeds shuffled s))"
    by (simp add: loadRandomBreeds_def take_perm_distinct)
  from assms(1) have "set shuffled = set (breeds s)" by (rule mset_eq_setD)
  then show "set (selectedBreeds (loadRandomBreeds shuffled s)) \<subseteq> set (breeds s)"
    using set_take_subset [of 3 shuffled] by (simp add: loadRandomBreeds_def)
qed

section \<open>Loading the catalog\<close>

text \<open>
  A response whose \<open>message\<close> object has no keys is a success: no error is set and the
  catalog is empty. And the catalog is made of the keys of the \<open>message\<close> member, not of the
  keys of the response object itself, which are \<open>message\<close> and \<open>status\<close>.
\<close>

theorem catalog_can_be_empty:
  "breeds (fetchBreeds no_breeds mounted) = [] \<and>
   error (fetchBreeds no_breeds mounted) = None \<and>
   breeds (fetchBreeds two_breeds mounted) = [''akita'', ''beagle''] \<and>
   map_option sort (Object_keys (json_of two_breeds)) = Some [''message'', ''status'']"
  by code_simp


text \<open>
  C8, as the page behaves. When \<open>fetchBreeds\<close> succeeds, that is when neither the request
  nor the reading of the body throws, the catalog becomes the keys of the \<open>message\<close>
  member of the response's JSON object, sorted lexicographically ascending and each listed
  once, and \<open>error\<close> is left as it was. The catalog is empty when \<open>message\<close> has no keys.
\<close>

theorem catalog_is_sorted_message_keys:
  "fetchBreeds_keys out = Some ks \<longrightarrow>
     fetchBreeds out s = s\<lparr>breeds := ks, breedsRequest := False\<rparr> \<and>
     error (fetchBreeds out s) = error s \<and>
     sorted ks \<and> distinct ks \<and>
     (\<exists>status data keys. out = Response status (Some data) \<and>
        Object_keys (get_prop ''message'' data) = Some keys \<and> ks = sort keys) \<and>
     (\<forall>status data ms. out = Response status (Some data) \<and>
        get_prop ''message'' data = Some (JObj ms) \<longrightarrow>
          ks = sort (remdups (map fst ms)) \<and> set ks = fst ` set ms)"
proof
  assume a: "fetchBreeds_keys out = Some ks"
  then have st: "fetchBreeds out s = s\<lparr>breeds := ks, breedsRequest := False\<rparr>"
    by (simp add: fetchBreeds_def)
  then have er: "error (fetchBreeds out s) = error s" by simp
  from a have so: "sorted ks \<and> distinct ks" by (rule fetchBreeds_keys_sorted)
  from a have ex: "\<exists>status data keys. out = Response status (Some data) \<and>
        Object_keys (get_prop ''message'' data) = Some keys \<and> ks = sort keys"
    by (simp only: fetchBreeds_keys_Some)
  have ob: "ks = sort (remdups (map fst ms)) \<and> set ks = fst ` set ms"
    if "out = Response status (Some data) \<and> get_prop ''message'' data = Some (JObj ms)"
    for status data ms
  proof -
    from a that have "ks = sort (remdups (map fst ms))" by auto
    then show ?thesis by simp
  qed
  from st er so ex ob
  show "fetchBreeds out s = s\<lparr>breeds := ks, breedsRequest := False\<rparr> \<and>
     error (fetchBreeds out s) = error s \<and>
     sorted ks \<and> distinct ks \<and>
     (\<exists>status data keys. out = Response status (Some data) \<and>
        Object_keys (get_prop ''message'' data) = Some keys \<and> ks = sort keys) \<and>
     (\<forall>status data ms. out = Response status (Some data) \<and>
        get_prop ''message'' data = Some (JObj ms) \<longrightarrow>
          ks = sort (remdups (map fst ms)) \<and> set ks = fst ` set ms)"
    by blast
qed


theorem catalog_is_sorted_message_keys_witness:
  "fetchBreeds_keys two_breeds = Some [''akita'', ''beagle''] \<and>
   fetchBreeds two_breeds mounted = catalog_loaded \<and>
   error (fetchBreeds two_breeds mounted) = None \<and>
   sorted [''akita'', ''beagle''] \<and> distinct [''akita'', ''beagle'']"
proof -
  note t = catalog_is_sorted_message_keys [of two_breeds "[''akita'', ''beagle'']" mounted]
  from t two_breeds_keys have c: "error (fetchBreeds two_breeds mounted) = error mounted"
    "sorted [''akita'', ''beagle'']" "distinct [''akita'', ''beagle'']"
    by blast+
  have "error mounted = None" by (simp add: mounted_def)
  with c(1) have "error (fetchBreeds two_breeds mounted) = None" by simp
  with c(2,3) two_breeds_keys two_breeds_loaded show ?thesis by blast
qed


section \<open>A failed catalog fetch\<close>

text \<open>
  The status of a response is never read. A response of status 500 whose JSON body carries
  a text under \<open>message\<close> sets no error, and the catalog becomes the indices of the
  characters of that text.
\<close>

theorem status_is_not_read:
  "breeds (fetchBreeds http_error mounted) = [''0'', ''1'', ''2'', ''3''] \<and>
   error (fetchBreeds http_error mounted) = None \<and>
   json_of http_error \<noteq> None \<and>
   (case http_error of Rejected \<Rightarrow> False | Response status body \<Rightarrow> status = 500)"
  by code_simp


text \<open>
  C9, as the page behaves. When the catalog fetch fails by a network failure (\<open>fetch\<close>
  rejects), by a body that is not JSON, or by a JSON body without a \<open>message\<close> member (or
  with \<open>null\<close> there), then in every state reached afterwards the error slot holds the
  message for a failed catalog fetch, the catalog is empty, no image request has been
  issued, the gallery and the selection are empty and the picker shows no breed; the
  search box, the random button and the settings still respond.
\<close>

theorem catalog_failure_leaves_picker_empty:
  "(out = Rejected \<or> (\<exists>status. out = Response status None) \<or>
    (\<exists>status data. out = Response status (Some data) \<and>
       (get_prop ''message'' data = None \<or> get_prop ''message'' data = Some JNull))) \<and>
   run (BreedsSettled out # es) mounted = Some s \<longrightarrow>
     error s = Some ''Error fetching breeds'' \<and> breeds s = [] \<and>
     imageRequests s = [] \<and> images s = [] \<and> selectedBreeds s = [] \<and>
     filteredBreeds (breeds s) (searchTerm s) = [] \<and>
     step (SearchTyped v) s \<noteq> None \<and> step (RandomClicked []) s \<noteq> None \<and>
     step (ShowNamesSwitched w) s \<noteq> None \<and> step (ThemeChosen ''dark'') s \<noteq> None"
proof
  assume a: "(out = Rejected \<or> (\<exists>status. out = Response status None) \<or>
    (\<exists>status data. out = Response status (Some data) \<and>
       (get_prop ''message'' data = None \<or> get_prop ''message'' data = Some JNull))) \<and>
   run (BreedsSettled out # es) mounted = Some s"
  then have "fetchBreeds_keys out = None" by (simp only: fetchBreeds_keys_None)
  then have "catalog_failed (fetchBreeds out mounted)"
    by (simp add: fetchBreeds_def catalog_failed_def mounted_def)
  moreover from a have "run es (fetchBreeds out mounted) = Some s"
    by (simp add: mounted_def)
  ultimately have "catalog_failed s" by (blast intro: run_catalog_failed)
  then show "error s = Some ''Error fetching breeds'' \<and> breeds s = [] \<and>
     imageRequests s = [] \<and> images s = [] \<and> selectedBreeds s = [] \<and>
     filteredBreeds (breeds s) (searchTerm s) = [] \<and>
     step (SearchTyped v) s \<noteq> None \<and> step (RandomClicked []) s \<noteq> None \<and>
     step (ShowNamesSwitched w) s \<noteq> None \<and> step (ThemeChosen ''dark'') s \<noteq> None"
    by (simp add: catalog_failed_def filteredBreeds_def)
qed

theorem catalog_failure_leaves_picker_empty_witness:
  "((Rejected = Rejected \<or> (\<exists>status. Rejected = Response status None) \<or>
     (\<exists>status data. Rejected = Response status (Some data) \<and>
        (get_prop ''message'' data = None \<or> get_prop ''message'' data = Some JNull))) \<and>
    run (BreedsSettled Rejected # [SearchTyped ''A'', RandomClicked []]) mounted =
      Some catalog_down) \<and>
   error catalog_down = Some ''Error fetching breeds'' \<and> breeds catalog_down = [] \<and>
   imageRequests catalog_down = [] \<and> images catalog_down = [] \<and>
   selectedBreeds catalog_down = [] \<and>
   filteredBreeds (breeds catalog_down) (searchTerm catalog_down) = [] \<and>
   step (SearchTyped ''b'') catalog_down \<noteq> None \<and>
   step (RandomClicked []) catalog_down \<noteq> None"
  using catalog_failure_leaves_picker_empty [where out = Rejected and s = catalog_down
      and es = "[SearchTyped ''A'', RandomClicked []]" and v = "''b''"] run_catalog_down
  by blast


end
